theory Spec2Isabelle
  imports Main "HOL-Library.Sublist" "HOL-Library.Multiset"
begin

section \<open>Text as the editor reads and writes it (edit.py)\<close>

text \<open>
  Python strings are modelled as \<open>string\<close>. Both \<open>io.open(..., 'r', newline=None)\<close> and
  \<open>fileinput.input\<close> read in text mode with universal newlines: a carriage return, alone or
  followed by a line feed, reaches the program as one line feed (\<open>translate_nl\<close>). Iterating a
  text file yields its lines, each with its line feed, the last one possibly without
  (\<open>iter_lines\<close>). \<open>line.rstrip('\n')\<close> removes every trailing line feed (\<open>rstrip_nl\<close>). On
  output the platform is taken to be POSIX, where a written line feed stays a line feed.
\<close>

abbreviation LF :: char where "LF \<equiv> CHR 0x0A"
abbreviation CR :: char where "CR \<equiv> CHR 0x0D"

definition SEP :: string where
  "SEP = ''---''"

fun translate_nl :: "string \<Rightarrow> string" where
  "translate_nl [] = []"
| "translate_nl [c] = (if c = CR then [LF] else [c])"
| "translate_nl (c # d # cs) =
     (if c = CR then (if d = LF then LF # translate_nl cs else LF # translate_nl (d # cs))
      else c # translate_nl (d # cs))"

fun iter_lines :: "string \<Rightarrow> string list" where
  "iter_lines [] = []"
| "iter_lines (c # cs) =
     (if c = LF then [LF] # iter_lines cs
      else (case iter_lines cs of [] \<Rightarrow> [[c]] | l # ls \<Rightarrow> (c # l) # ls))"

definition rstrip_nl :: "string \<Rightarrow> string" where
  "rstrip_nl s = rev (dropWhile (\<lambda>c. c = LF) (rev s))"

text \<open>
  A compiled pattern is used only through \<open>pat.search(line)\<close>, so it is a predicate on lines;
  the regular-expression engine is the standard library's and stays a parameter.
\<close>

type_synonym pattern = "string \<Rightarrow> bool"

subsection \<open>flush_block and the two loops\<close>

text \<open>
  \<open>flush_block\<close> returns the strings it passes to \<open>outfh.write\<close>, in order. The loops of
  \<open>drop_blocks\<close> and \<open>show_blocks\<close> carry the variables \<open>lines\<close> and \<open>keep\<close> and the writes
  made so far; they return all three, and the caller does the flush after the loop.
\<close>

definition flush_block :: "bool \<Rightarrow> string list \<Rightarrow> string list" where
  "flush_block keep lines =
     (if keep then [SEP, [LF]] @ concat (map (\<lambda>k. [k, [LF]]) lines) else [])"

fun drop_loop :: "pattern \<Rightarrow> string list \<Rightarrow> string list \<Rightarrow> bool \<Rightarrow> string list
    \<Rightarrow> string list \<times> string list \<times> bool" where
  "drop_loop pat [] lines keep out = (out, lines, keep)"
| "drop_loop pat (raw # rest) lines keep out =
     (let line = rstrip_nl raw in
      if prefix SEP line
      then drop_loop pat rest [] True (out @ flush_block keep lines)
      else drop_loop pat rest (lines @ [line]) (if pat line then False else keep) out)"

fun show_loop :: "pattern \<Rightarrow> string list \<Rightarrow> string list \<Rightarrow> bool \<Rightarrow> string list
    \<Rightarrow> string list \<times> string list \<times> bool" where
  "show_loop pat [] lines keep out = (out, lines, keep)"
| "show_loop pat (raw # rest) lines keep out =
     (let line = rstrip_nl raw in
      if prefix SEP line
      then show_loop pat rest [] False (out @ flush_block keep lines)
      else show_loop pat rest (lines @ [line]) (if pat line then True else keep) out)"

text \<open>
  The writes of a whole run of each loop on a text, the flush after the loop included.
\<close>

definition drop_text :: "pattern \<Rightarrow> string \<Rightarrow> string list" where
  "drop_text pat text =
     (case drop_loop pat (iter_lines text) [] True [] of (out, lines, keep) \<Rightarrow>
        out @ (if length lines > 0 then flush_block keep lines else []))"

definition show_text :: "pattern \<Rightarrow> string \<Rightarrow> string list" where
  "show_text pat text =
     (case show_loop pat (iter_lines text) [] False [] of (out, lines, keep) \<Rightarrow>
        out @ (if length lines > 0 then flush_block keep lines else []))"

datatype exn =
  ValueError | OSError | UnicodeDecodeError | KeyboardInterrupt | TypeError | ReError

text \<open>
  Only \<open>except Exception\<close> guards the rewrite; \<open>KeyboardInterrupt\<close> derives from
  \<open>BaseException\<close> and passes it by.
\<close>

fun is_Exception :: "exn \<Rightarrow> bool" where
  "is_Exception KeyboardInterrupt = False"
| "is_Exception _ = True"

text \<open>
  Reading a line may fail (bytes that do not decode, an I/O error, an interrupt), and so may a
  call of \<open>write\<close> (an I/O error, an interrupt). \<open>ReadFault k e\<close> makes read number \<open>k\<close>
  (from 0; the read after the last line is the one that finds the end of the input) raise
  \<open>e\<close>, after the lines before it were processed. \<open>WriteFault n e\<close> makes call number \<open>n\<close>
  (from 0) of \<open>write\<close> raise \<open>e\<close>, after the calls before it were made. A fault beyond the end
  of the run never happens.

  \<open>drop_body\<close> is the body of the \<open>with\<close> block of \<open>drop_blocks\<close> and \<open>show_body\<close> the body of
  \<open>show_blocks\<close>, as functions of the text read: the writes made and the exception that ends
  the body, if any.
\<close>

datatype fault = ReadFault nat exn | WriteFault nat exn

definition drop_body :: "pattern \<Rightarrow> fault option \<Rightarrow> string \<Rightarrow> string list \<times> exn option" where
  "drop_body pat fault text =
     (case fault of
        None \<Rightarrow> (drop_text pat text, None)
      | Some (ReadFault k e) \<Rightarrow>
          if k \<le> length (iter_lines text)
          then (fst (drop_loop pat (take k (iter_lines text)) [] True []), Some e)
          else (drop_text pat text, None)
      | Some (WriteFault n e) \<Rightarrow>
          if n < length (drop_text pat text)
          then (take n (drop_text pat text), Some e)
          else (drop_text pat text, None))"

definition show_body :: "pattern \<Rightarrow> fault option \<Rightarrow> string \<Rightarrow> string list \<times> exn option" where
  "show_body pat fault text =
     (case fault of
        None \<Rightarrow> (show_text pat text, None)
      | Some (ReadFault k e) \<Rightarrow>
          if k \<le> length (iter_lines text)
          then (fst (show_loop pat (take k (iter_lines text)) [] False []), Some e)
          else (show_text pat text, None)
      | Some (WriteFault n e) \<Rightarrow>
          if n < length (show_text pat text)
          then (take n (show_text pat text), Some e)
          else (show_text pat text, None))"

subsection \<open>The file system and inplace\<close>

text \<open>
  A directory maps paths to inode numbers and a store maps inode numbers to files, so that an
  open file stays attached to its inode when its name is unlinked or renamed. \<open>fresh\<close> is the
  next unused inode number.
\<close>

record inode =
  perm :: nat
  content :: string

record filesys =
  names :: "string \<rightharpoonup> nat"
  inodes :: "nat \<rightharpoonup> inode"
  fresh :: nat

definition read_path :: "filesys \<Rightarrow> string \<Rightarrow> string option" where
  "read_path fs p = (case names fs p of None \<Rightarrow> None
                     | Some i \<Rightarrow> map_option content (inodes fs i))"

definition unlink :: "filesys \<Rightarrow> string \<Rightarrow> exn + filesys" where
  "unlink fs p = (case names fs p of None \<Rightarrow> Inl OSError
                  | Some i \<Rightarrow> Inr (fs\<lparr>names := (names fs)(p := None)\<rparr>))"

text \<open>\<open>try: os.unlink(p) except os.error: pass\<close>\<close>

definition unlink_quiet :: "filesys \<Rightarrow> string \<Rightarrow> filesys" where
  "unlink_quiet fs p = (case unlink fs p of Inl e \<Rightarrow> fs | Inr fs' \<Rightarrow> fs')"

definition rename :: "filesys \<Rightarrow> string \<Rightarrow> string \<Rightarrow> exn + filesys" where
  "rename fs src dst =
     (case names fs src of None \<Rightarrow> Inl OSError
      | Some i \<Rightarrow> if src = dst then Inr fs
                  else Inr (fs\<lparr>names := ((names fs)(src := None))(dst \<mapsto> i)\<rparr>))"

text \<open>
  \<open>os.open(p, O_CREAT | O_WRONLY | O_TRUNC, perm)\<close> followed by \<open>os.chmod(p, perm)\<close>: the file
  at \<open>p\<close> is emptied, or created on a new inode; returns the inode written to.
\<close>

definition create_trunc :: "filesys \<Rightarrow> string \<Rightarrow> nat \<Rightarrow> filesys \<times> nat" where
  "create_trunc fs p pm =
     (case names fs p of
        Some j \<Rightarrow> (fs\<lparr>inodes := (inodes fs)(j \<mapsto> \<lparr>perm = pm, content = []\<rparr>)\<rparr>, j)
      | None \<Rightarrow> (fs\<lparr>names := (names fs)(p \<mapsto> fresh fs),
                     inodes := (inodes fs)(fresh fs \<mapsto> \<lparr>perm = pm, content = []\<rparr>),
                     fresh := Suc (fresh fs)\<rparr>, fresh fs))"

text \<open>
  The writable file is opened with \<open>buffering=-1\<close>: what \<open>write\<close> is given reaches the file
  when the buffers of the library fill up, and at \<open>close\<close>. How much is held back depends on
  the library and on the size of its buffers, so it is the parameter \<open>held\<close>: after the writes
  \<open>ws\<close>, the last \<open>held ws\<close> characters written (at most all of them) are still in a buffer,
  and the file holds the rest (\<open>on_disk\<close>). \<open>close\<close> writes everything out. The file was
  created empty and nothing else writes to it, so each change sets its whole content
  (\<open>set_content\<close>).
\<close>

type_synonym buffering = "string list \<Rightarrow> nat"

definition on_disk :: "buffering \<Rightarrow> string list \<Rightarrow> string" where
  "on_disk held ws = take (length (concat ws) - held ws) (concat ws)"

definition set_content :: "nat \<Rightarrow> filesys \<Rightarrow> string \<Rightarrow> filesys" where
  "set_content j fs c =
     (case inodes fs j of None \<Rightarrow> fs
      | Some nd \<Rightarrow> fs\<lparr>inodes := (inodes fs)(j \<mapsto> nd\<lparr>content := c\<rparr>)\<rparr>)"

text \<open>
  \<open>inplace(filename, mode)\<close> with the body of the \<open>with\<close> block as a parameter. The result is
  the file system after every step, in order (the last one is the final state), and the
  exception that leaves the \<open>with\<close> statement, if any. The steps are: the start; the unlink
  of an old backup; the rename to the backup path; the creation of the new file; one step for
  each call of \<open>write\<close> in the body; then, when the body raised an \<open>Exception\<close>, the unlink
  of the new file and the rename of the backup back to the original path; and last, in the
  \<open>finally\<close> clause, the close of the writable file and the unlink of the backup.
  \<open>os.fstat\<close> on the file just opened does not fail here, so the \<open>else\<close> branch of lines 50
  to 61 is the one modelled.
\<close>

definition inplace :: "buffering \<Rightarrow> filesys \<Rightarrow> string \<Rightarrow> string
    \<Rightarrow> (string \<Rightarrow> string list \<times> exn option) \<Rightarrow> filesys list \<times> exn option" where
  "inplace held fs filename mode body =
     (if set mode \<inter> set ''wa+'' \<noteq> {} then ([fs], Some ValueError)
      else
        let backupfilename = filename @ ''.bak'';
            s1 = unlink_quiet fs backupfilename
        in case rename s1 filename backupfilename of
             Inl e \<Rightarrow> ([fs, s1], Some e)
           | Inr s2 \<Rightarrow>
              (case names s2 backupfilename of
                 None \<Rightarrow> ([fs, s1, s2], Some OSError)
               | Some i \<Rightarrow>
                  (case inodes s2 i of
                     None \<Rightarrow> ([fs, s1, s2], Some OSError)
                   | Some nd \<Rightarrow>
                      (case create_trunc s2 filename (perm nd) of
                         (s3, j) \<Rightarrow>
                           (case body (translate_nl (content nd)) of
                              (chunks, err) \<Rightarrow>
                                let ws = map (\<lambda>k. set_content j s3 (on_disk held (take k chunks)))
                                           [1..<Suc (length chunks)];
                                    s4 = last (s3 # ws)
                                in (case err of
                                      None \<Rightarrow>
                                        let s5 = set_content j s4 (concat chunks) in
                                        ([fs, s1, s2, s3] @ ws
                                           @ [s5, unlink_quiet s5 backupfilename],
                                         None)
                                    | Some e \<Rightarrow>
                                        if is_Exception e
                                        then
                                          let s5 = unlink_quiet s4 filename in
                                          (case rename s5 backupfilename filename of
                                             Inl e' \<Rightarrow>
                                               let s6 = set_content j s5 (concat chunks) in
                                               ([fs, s1, s2, s3] @ ws
                                                  @ [s5, s6, unlink_quiet s6 backupfilename],
                                                Some e')
                                           | Inr s6 \<Rightarrow>
                                               let s7 = set_content j s6 (concat chunks) in
                                               ([fs, s1, s2, s3] @ ws
                                                  @ [s5, s6, s7, unlink_quiet s7 backupfilename],
                                                Some e))
                                        else
                                          let s5 = set_content j s4 (concat chunks) in
                                          ([fs, s1, s2, s3] @ ws
                                             @ [s5, unlink_quiet s5 backupfilename],
                                           Some e)))))))"

definition drop_blocks :: "buffering \<Rightarrow> filesys \<Rightarrow> string \<Rightarrow> pattern \<Rightarrow> fault option
    \<Rightarrow> filesys list \<times> exn option" where
  "drop_blocks held fs fname pat fault = inplace held fs fname ''r'' (drop_body pat fault)"

text \<open>
  \<open>show_blocks\<close> reads through \<open>fileinput.input(fname)\<close>: the file of that name, or standard
  input when the name is \<open>-\<close>. It writes to standard output; the result is the list of writes
  and the exception it ends with, if any (\<open>OSError\<close> when the file cannot be opened).
\<close>

definition show_blocks :: "filesys \<Rightarrow> string \<Rightarrow> string \<Rightarrow> pattern \<Rightarrow> fault option
    \<Rightarrow> string list \<times> exn option" where
  "show_blocks fs stdin fname pat fault =
     (case (if fname = ''-'' then Some stdin else read_path fs fname) of
        None \<Rightarrow> ([], Some OSError)
      | Some c \<Rightarrow> show_body pat fault (translate_nl c))"

subsection \<open>main\<close>

text \<open>
  The namespace returned by \<open>argparse\<close>: \<open>--show\<close> and \<open>--delete\<close> are strings or
  \<open>None\<close>; \<open>--file\<close> has \<open>action='append'\<close>, so it is a list, or \<open>None\<close> when the option was
  never given. \<open>if args.show\<close> tests truthiness: \<open>None\<close> and the empty string are both false.
  \<open>re.compile\<close> is a parameter, \<open>None\<close> standing for \<open>re.error\<close>. \<open>print\<close> writes its
  argument and a line feed to standard output. Standard input is at its end once it was read.
  \<open>main\<close> is modelled for runs in which no read and no write fails.
\<close>

record args =
  arg_show :: "string option"
  arg_delete :: "string option"
  arg_file :: "string list option"

datatype status = Returned | Exited nat | Raised exn

definition truthy :: "string option \<Rightarrow> bool" where
  "truthy a = (case a of None \<Rightarrow> False | Some s \<Rightarrow> s \<noteq> [])"

fun show_files :: "filesys \<Rightarrow> string \<Rightarrow> pattern \<Rightarrow> string list \<Rightarrow> string list
    \<Rightarrow> string list \<times> exn option" where
  "show_files fs stdin pat [] out = (out, None)"
| "show_files fs stdin pat (f # fl) out =
     (case show_blocks fs stdin f pat None of
        (w, Some e) \<Rightarrow> (out @ w, Some e)
      | (w, None) \<Rightarrow> show_files fs (if f = ''-'' then [] else stdin) pat fl (out @ w))"

fun drop_files :: "buffering \<Rightarrow> filesys \<Rightarrow> pattern \<Rightarrow> string list \<Rightarrow> filesys \<times> exn option" where
  "drop_files held fs pat [] = (fs, None)"
| "drop_files held fs pat (f # fl) =
     (case drop_blocks held fs f pat None of
        (tr, Some e) \<Rightarrow> (last tr, Some e)
      | (tr, None) \<Rightarrow> drop_files held (last tr) pat fl)"

definition main :: "(string \<Rightarrow> pattern option) \<Rightarrow> buffering \<Rightarrow> filesys \<Rightarrow> string \<Rightarrow> args
    \<Rightarrow> string list \<times> filesys \<times> status" where
  "main compile held fs stdin a =
     (if truthy (arg_show a) \<and> truthy (arg_delete a)
      then ([''can only pass one of --show or --delete'', [LF]], fs, Exited 1)
      else if \<not> truthy (arg_show a) \<and> \<not> truthy (arg_delete a)
      then ([''must pass one of --show or --delete'', [LF]], fs, Exited 1)
      else
        (case (case arg_show a of
                 None \<Rightarrow> ([], None)
               | Some s \<Rightarrow>
                   if s = [] then ([], None)
                   else (case compile s of
                           None \<Rightarrow> ([], Some ReError)
                         | Some pat \<Rightarrow>
                             (case arg_file a of
                                None \<Rightarrow> ([], Some TypeError)
                              | Some fl \<Rightarrow> show_files fs stdin pat fl []))) of
           (out, Some e) \<Rightarrow> (out, fs, Raised e)
         | (out, None) \<Rightarrow>
             (case arg_delete a of
                None \<Rightarrow> (out, fs, Returned)
              | Some d \<Rightarrow>
                  if d = [] then (out, fs, Returned)
                  else (case compile d of
                          None \<Rightarrow> (out, fs, Raised ReError)
                        | Some pat \<Rightarrow>
                            (case arg_file a of
                               None \<Rightarrow> (out, fs, Raised TypeError)
                             | Some fl \<Rightarrow>
                                 (case drop_files held fs pat fl of
                                    (fs', Some e) \<Rightarrow> (out, fs', Raised e)
                                  | (fs', None) \<Rightarrow> (out, fs', Returned)))))))"

subsection \<open>Blocks\<close>

text \<open>
  The segmentation the specification describes, for a given test of what a separator line
  is: a block is the run of non-separator lines since the previous separator, or since the
  start of the input. \<open>segments\<close> returns every run, the empty ones included, so a text with
  \<open>n\<close> separator lines has \<open>n + 1\<close> runs.
\<close>

fun segments :: "(string \<Rightarrow> bool) \<Rightarrow> string list \<Rightarrow> string list list" where
  "segments P [] = [[]]"
| "segments P (l # ls) =
     (if P l then [] # segments P ls
      else (case segments P ls of [] \<Rightarrow> [[l]] | b # bs \<Rightarrow> (l # b) # bs))"

definition prepend_first :: "string list \<Rightarrow> string list list \<Rightarrow> string list list" where
  "prepend_first ls bss = (case bss of [] \<Rightarrow> [ls] | b # bs \<Rightarrow> (ls @ b) # bs)"

definition drop_last_empty :: "string list list \<Rightarrow> string list list" where
  "drop_last_empty bss = (if bss \<noteq> [] \<and> last bss = [] then butlast bss else bss)"

text \<open>What \<open>flush_block\<close> writes for a block it keeps.\<close>

definition render_block :: "string list \<Rightarrow> string list" where
  "render_block b = flush_block True b"

text \<open>
  The lines of a file, each without its line feed, and the blocks of a file for a given test
  of what a separator line is: the runs between separator lines that hold at least one line.
\<close>

definition file_lines :: "string \<Rightarrow> string list" where
  "file_lines c = map rstrip_nl (iter_lines (translate_nl c))"

definition blocks_by :: "(string \<Rightarrow> bool) \<Rightarrow> string \<Rightarrow> string list list" where
  "blocks_by P c = filter (\<lambda>b. b \<noteq> []) (segments P (file_lines c))"

text \<open>
  The separator test of the specification is that the line equals the token; the blocks of
  the specification are cut by it (\<open>spec_blocks\<close>). The blocks that the two loops cut are
  those of the test \<open>line.startswith(SEP)\<close> (\<open>code_blocks\<close>).
\<close>

definition spec_boundary :: "string \<Rightarrow> bool" where
  "spec_boundary line = (line = SEP)"

definition spec_blocks :: "string \<Rightarrow> string list list" where
  "spec_blocks c = blocks_by spec_boundary c"

definition code_blocks :: "string \<Rightarrow> string list list" where
  "code_blocks c = blocks_by (prefix SEP) c"

subsection \<open>Concrete inputs\<close>

text \<open>
  A file system holding one file; the search of a compiled pattern that consists of letters
  and digits only, under \<open>re.IGNORECASE\<close> (for ASCII text); and the buffering of a writer
  whose buffer is larger than everything written, so that nothing reaches the file before
  \<open>close\<close>.
\<close>

definition single_file :: "string \<Rightarrow> string \<Rightarrow> filesys" where
  "single_file name c =
     \<lparr>names = [name \<mapsto> 0], inodes = [0 \<mapsto> \<lparr>perm = 420, content = c\<rparr>], fresh = 1\<rparr>"

definition ascii_lower :: "char \<Rightarrow> char" where
  "ascii_lower c =
     (if 65 \<le> (of_char c :: nat) \<and> (of_char c :: nat) \<le> 90
      then (case c of Char b0 b1 b2 b3 b4 b5 b6 b7 \<Rightarrow> Char b0 b1 b2 b3 b4 True b6 b7)
      else c)"

definition plain_pattern :: "string \<Rightarrow> pattern" where
  "plain_pattern w line = sublist (map ascii_lower w) (map ascii_lower line)"

definition compile_plain :: "string \<Rightarrow> pattern option" where
  "compile_plain w = Some (plain_pattern w)"

definition held_until_close :: buffering where
  "held_until_close ws = length (concat ws)"

section \<open>The aggregator (harvest.py)\<close>

subsection \<open>Subjects\<close>

text \<open>
  The three patterns have the form \<open>^(.*)SUFFIX$\<close> and are used through \<open>match\<close> and
  \<open>group(1)\<close>. In Python's \<open>re\<close> without flags, \<open>.\<close> matches any character except the line
  feed, and \<open>$\<close> matches at the end of the string and also just before a line feed that ends the
  string. So a subject matches when, after at most one final line feed is set aside, it ends
  with the suffix and the part before the suffix holds no line feed; that part is the group.
  \<open>rx_match\<close> computes the group on the reversed subject.
\<close>

definition author_sfx :: string where
  "author_sfx = '' - new articles''"

definition citing_sfx :: string where
  "citing_sfx = '' - new citations''"

definition related_sfx :: string where
  "related_sfx = '' - new related research''"

fun strip_prefix :: "string \<Rightarrow> string \<Rightarrow> string option" where
  "strip_prefix [] ys = Some ys"
| "strip_prefix (x # xs) [] = None"
| "strip_prefix (x # xs) (y # ys) = (if x = y then strip_prefix xs ys else None)"

definition rx_match :: "string \<Rightarrow> string \<Rightarrow> string option" where
  "rx_match sfx subject =
     (let r = rev subject;
          body = (case r of [] \<Rightarrow> r | c # cs \<Rightarrow> if c = LF then cs else r)
      in case strip_prefix (rev sfx) body of
           None \<Rightarrow> None
         | Some g \<Rightarrow> if LF \<in> set g then None else Some (rev g))"

subsection \<open>Paper\<close>

record paper =
  url :: string
  desc :: string
  author :: "string set"
  citing :: "string set"
  related :: "string set"

definition Paper :: "string \<Rightarrow> string \<Rightarrow> paper" where
  "Paper u d = \<lparr>url = u, desc = d, author = {}, citing = {}, related = {}\<rparr>"

definition note_subject :: "paper \<Rightarrow> string \<Rightarrow> paper" where
  "note_subject p subject =
     (case rx_match author_sfx subject of
        Some g \<Rightarrow> p\<lparr>author := insert g (author p)\<rparr>
      | None \<Rightarrow>
          (let p1 = (case rx_match citing_sfx subject of
                       Some g \<Rightarrow> p\<lparr>citing := insert g (citing p)\<rparr>
                     | None \<Rightarrow> p)
           in case rx_match related_sfx subject of
                Some g \<Rightarrow> p1\<lparr>related := insert g (related p1)\<rparr>
              | None \<Rightarrow> p1))"

text \<open>
  \<open>Paper.dump\<close> prints one line per \<open>print\<close>. The order in which \<open>", ".join\<close> walks a Python
  set is not specified, so it is the parameter \<open>elems\<close>.
\<close>

abbreviation TAB :: char where "TAB \<equiv> CHR 0x09"

fun join :: "string \<Rightarrow> string list \<Rightarrow> string" where
  "join sep [] = []"
| "join sep [x] = x"
| "join sep (x # y # ys) = x @ sep @ join sep (y # ys)"

definition paper_dump :: "(string set \<Rightarrow> string list) \<Rightarrow> paper \<Rightarrow> string list" where
  "paper_dump elems p =
     [''---'', TAB # desc p, TAB # url p]
     @ (if author p \<noteq> {} then [TAB # ''author: '' @ join '', '' (elems (author p))] else [])
     @ (if citing p \<noteq> {} then [TAB # ''citing: '' @ join '', '' (elems (citing p))] else [])
     @ (if related p \<noteq> {} then [TAB # ''related: '' @ join '', '' (elems (related p))] else [])"

subsection \<open>ScholarScraper\<close>

text \<open>
  \<open>HTMLParser.feed\<close> turns markup into calls of the three handlers; a fragment is modelled
  as the list of those calls. \<open>self.papers\<close> is a dictionary, which keeps insertion order: an
  association list with one entry per key. \<open>dict(attrs)\<close> keeps the last value of a repeated
  attribute; an attribute without a value has the value \<open>None\<close>. The parsing of the link
  (\<open>urlparse\<close>, \<open>parse_qs\<close>, then \<open>qdict['url'][0]\<close> when the key is there) is the parameter
  \<open>query_url\<close>, applied to the value of \<open>attr_dict.get('href', '')\<close>.
\<close>

datatype event =
  StartTag string "(string \<times> string option) list"
| EndTag string
| Data string

record scraper =
  papers :: "(string \<times> paper) list"
  pending_subject :: "string option"
  pending_url :: "string option"

definition ScholarScraper :: scraper where
  "ScholarScraper = \<lparr>papers = [], pending_subject = None, pending_url = None\<rparr>"

definition handle_starttag :: "(string option \<Rightarrow> string option) \<Rightarrow> scraper \<Rightarrow> string
    \<Rightarrow> (string \<times> string option) list \<Rightarrow> scraper" where
  "handle_starttag query_url s tag attrs =
     (let attr_dict = map_of (rev attrs) in
      if tag = ''a'' \<and> attr_dict ''class'' = Some (Some ''gse_alrt_title'')
      then (case query_url (case attr_dict ''href'' of None \<Rightarrow> Some [] | Some v \<Rightarrow> v) of
              Some u \<Rightarrow> s\<lparr>pending_url := Some u\<rparr>
            | None \<Rightarrow> s)
      else s)"

definition handle_endtag :: "scraper \<Rightarrow> string \<Rightarrow> scraper" where
  "handle_endtag s tag = (if pending_url s \<noteq> None then s\<lparr>pending_url := None\<rparr> else s)"

definition handle_data :: "scraper \<Rightarrow> string \<Rightarrow> scraper" where
  "handle_data s data =
     (case pending_url s of
        None \<Rightarrow> s
      | Some u \<Rightarrow>
          (let ps = (case map_of (papers s) u of
                       None \<Rightarrow> papers s @ [(u, Paper u data)]
                     | Some p \<Rightarrow> papers s)
           in case pending_subject s of
                None \<Rightarrow> s\<lparr>papers := ps\<rparr>
              | Some subject \<Rightarrow>
                  s\<lparr>papers := map (\<lambda>(k, p). if k = u then (k, note_subject p subject)
                                              else (k, p)) ps\<rparr>))"

fun handle :: "(string option \<Rightarrow> string option) \<Rightarrow> scraper \<Rightarrow> event \<Rightarrow> scraper" where
  "handle query_url s (StartTag tag attrs) = handle_starttag query_url s tag attrs"
| "handle query_url s (EndTag tag) = handle_endtag s tag"
| "handle query_url s (Data data) = handle_data s data"

fun feed :: "(string option \<Rightarrow> string option) \<Rightarrow> scraper \<Rightarrow> event list \<Rightarrow> scraper" where
  "feed query_url s [] = s"
| "feed query_url s (e # es) = feed query_url (handle query_url s e) es"

definition set_subject :: "scraper \<Rightarrow> string \<Rightarrow> scraper" where
  "set_subject s subject = s\<lparr>pending_subject := Some subject\<rparr>"

text \<open>The loop of \<open>main\<close> over the messages: \<open>set_subject\<close>, then \<open>feed\<close>, for each one.\<close>

fun run :: "(string option \<Rightarrow> string option) \<Rightarrow> scraper \<Rightarrow> (string \<times> event list) list
    \<Rightarrow> scraper" where
  "run query_url s [] = s"
| "run query_url s ((subject, events) # rest) =
     run query_url (feed query_url (set_subject s subject) events) rest"

text \<open>
  A record kept along a run, used in the proofs: the calls of \<open>handle_data\<close> that found a
  pending URL, each with that URL and its text, in the order of the calls.
\<close>

fun feed_log :: "(string option \<Rightarrow> string option) \<Rightarrow> scraper \<Rightarrow> event list
    \<Rightarrow> (string \<times> string) list" where
  "feed_log query_url s [] = []"
| "feed_log query_url s (e # es) =
     (case e of
        Data d \<Rightarrow> (case pending_url s of None \<Rightarrow> [] | Some u \<Rightarrow> [(u, d)])
      | _ \<Rightarrow> [])
     @ feed_log query_url (handle query_url s e) es"

fun run_log :: "(string option \<Rightarrow> string option) \<Rightarrow> scraper \<Rightarrow> (string \<times> event list) list
    \<Rightarrow> (string \<times> string) list" where
  "run_log query_url s [] = []"
| "run_log query_url s ((subject, events) # rest) =
     feed_log query_url (set_subject s subject) events
     @ run_log query_url (feed query_url (set_subject s subject) events) rest"

text \<open>
  \<open>ScholarScraper.dump\<close>, with the two blacklists as they are after loading (stripped,
  non-empty lines) and \<open>str.lower\<close> as the parameter \<open>lower\<close>. \<open>b in url\<close> on strings is
  containment as a contiguous substring. The result is the list of printed lines.
\<close>

fun dump_loop :: "(string \<Rightarrow> string) \<Rightarrow> (string set \<Rightarrow> string list) \<Rightarrow> string list
    \<Rightarrow> string list \<Rightarrow> (string \<times> paper) list \<Rightarrow> string list" where
  "dump_loop lower elems nonfree_blacklist topic_blacklist [] = []"
| "dump_loop lower elems nonfree_blacklist topic_blacklist ((u, p) # rest) =
     (if \<not> list_ex (\<lambda>b. sublist b u) nonfree_blacklist
      then (let ld = lower (desc p) in
            if \<not> list_ex (\<lambda>t. sublist t ld) topic_blacklist then paper_dump elems p else [])
      else [])
     @ dump_loop lower elems nonfree_blacklist topic_blacklist rest"

definition dump :: "(string \<Rightarrow> string) \<Rightarrow> (string set \<Rightarrow> string list) \<Rightarrow> string list
    \<Rightarrow> string list \<Rightarrow> scraper \<Rightarrow> string list" where
  "dump lower elems nonfree_blacklist topic_blacklist s =
     dump_loop lower elems nonfree_blacklist topic_blacklist (papers s)"

subsection \<open>Triples\<close>

text \<open>
  A (subject, link, description) triple as one message: the subject, and a fragment with one
  alert link whose text is the description. The URL of the triple is \<open>query_url\<close> of the link.
\<close>

definition triple_events :: "string \<Rightarrow> string \<Rightarrow> event list" where
  "triple_events href d =
     [StartTag ''a'' [(''class'', Some ''gse_alrt_title''), (''href'', Some href)],
      Data d, EndTag ''a'']"

definition run_triples :: "(string option \<Rightarrow> string option) \<Rightarrow> scraper
    \<Rightarrow> (string \<times> string \<times> string) list \<Rightarrow> scraper" where
  "run_triples query_url s ts =
     run query_url s (map (\<lambda>(subject, href, d). (subject, triple_events href d)) ts)"

definition triple_log :: "(string option \<Rightarrow> string option) \<Rightarrow> (string \<times> string \<times> string) list
    \<Rightarrow> (string \<times> string) list" where
  "triple_log query_url ts =
     concat (map (\<lambda>(subject, href, d).
        case query_url (Some href) of None \<Rightarrow> [] | Some u \<Rightarrow> [(u, d)]) ts)"

definition names_of :: "paper \<Rightarrow> string set \<times> string set \<times> string set" where
  "names_of p = (author p, citing p, related p)"

text \<open>The condition of the specification for leaving a record out of the output.\<close>

definition excluded :: "(string \<Rightarrow> string) \<Rightarrow> string list \<Rightarrow> string list \<Rightarrow> paper \<Rightarrow> bool" where
  "excluded lower nonfree_blacklist topic_blacklist p =
     ((\<exists>b \<in> set nonfree_blacklist. sublist b (url p))
      \<or> (\<exists>t \<in> set topic_blacklist. sublist t (lower (desc p))))"

text \<open>A link parser for concrete inputs: the links \<open>?url=...\<close> and nothing else.\<close>

definition plain_query :: "string option \<Rightarrow> string option" where
  "plain_query h =
     (case h of None \<Rightarrow> None
      | Some s \<Rightarrow> (case strip_prefix ''?url='' s of None \<Rightarrow> None
                   | Some u \<Rightarrow> if u = [] then None else Some u))"

subsection \<open>Observations in the input\<close>

text \<open>
  What the input of a run shows, read off the events without the scraper. An alert link is a
  start tag \<open>a\<close> whose \<open>class\<close> attribute is \<open>gse_alrt_title\<close> and whose \<open>href\<close> has a
  \<open>url\<close> parameter; that parameter is the canonical URL of the link (\<open>link_url\<close>; of an
  attribute given twice the last value counts). The capture ends at the next end tag, of any
  element. So a text is observed for the URL \<open>u\<close> when, going back from the text, the first
  alert link or end tag met is an alert link with URL \<open>u\<close>. \<open>last_link\<close> takes the events
  before a point, the latest first. All the fragments of a run are one stream of events
  (\<open>events_of\<close>): the end of a fragment closes nothing.
\<close>

definition attr_value :: "string \<Rightarrow> (string \<times> string option) list \<Rightarrow> string option option" where
  "attr_value name attrs =
     (if filter (\<lambda>a. fst a = name) attrs = [] then None
      else Some (snd (last (filter (\<lambda>a. fst a = name) attrs))))"

definition link_url :: "(string option \<Rightarrow> string option) \<Rightarrow> string
    \<Rightarrow> (string \<times> string option) list \<Rightarrow> string option" where
  "link_url query_url tag attrs =
     (if tag = ''a'' \<and> attr_value ''class'' attrs = Some (Some ''gse_alrt_title'')
      then query_url (case attr_value ''href'' attrs of None \<Rightarrow> Some [] | Some v \<Rightarrow> v)
      else None)"

fun last_link :: "(string option \<Rightarrow> string option) \<Rightarrow> event list \<Rightarrow> string option" where
  "last_link query_url [] = None"
| "last_link query_url (EndTag tag # earlier) = None"
| "last_link query_url (Data d # earlier) = last_link query_url earlier"
| "last_link query_url (StartTag tag attrs # earlier) =
     (case link_url query_url tag attrs of
        Some u \<Rightarrow> Some u
      | None \<Rightarrow> last_link query_url earlier)"

text \<open>The observations of a stream of events: each URL with a text observed for it, in order.\<close>

fun observed_upto :: "(string option \<Rightarrow> string option) \<Rightarrow> event list \<Rightarrow> (string \<times> string) list" where
  "observed_upto query_url [] = []"
| "observed_upto query_url (e # earlier) =
     observed_upto query_url earlier
     @ (case e of
          Data d \<Rightarrow> (case last_link query_url earlier of None \<Rightarrow> [] | Some u \<Rightarrow> [(u, d)])
        | _ \<Rightarrow> [])"

definition observed :: "(string option \<Rightarrow> string option) \<Rightarrow> event list \<Rightarrow> (string \<times> string) list" where
  "observed query_url es = observed_upto query_url (rev es)"

definition events_of :: "(string \<times> event list) list \<Rightarrow> event list" where
  "events_of ps = concat (map snd ps)"

text \<open>The canonical URLs of the alert links of a stream of events, in order.\<close>

definition urls_seen :: "(string option \<Rightarrow> string option) \<Rightarrow> event list \<Rightarrow> string list" where
  "urls_seen query_url es =
     concat (map (\<lambda>e. case e of
                         StartTag tag attrs \<Rightarrow>
                           (case link_url query_url tag attrs of None \<Rightarrow> [] | Some u \<Rightarrow> [u])
                       | _ \<Rightarrow> []) es)"

text \<open>The elements of a list in the order of their first occurrences.\<close>

definition first_occurrences :: "'a list \<Rightarrow> 'a list" where
  "first_occurrences xs = rev (remdups (rev xs))"

subsection \<open>Derived notions used in the statements and proofs\<close>

text \<open>Keys are unique, and every record is stored under its own URL.\<close>

definition inv_papers :: "(string \<times> paper) list \<Rightarrow> bool" where
  "inv_papers ps = (distinct (map fst ps) \<and> map (\<lambda>kp. url (snd kp)) ps = map fst ps)"

text \<open>The description stored for a URL.\<close>

definition desc_of :: "scraper \<Rightarrow> string \<Rightarrow> string option" where
  "desc_of s u = map_option desc (map_of (papers s) u)"

text \<open>The names a subject contributes: to the author, citing and related set.\<close>

definition contrib :: "string \<Rightarrow> string set \<times> string set \<times> string set" where
  "contrib subject =
     (case rx_match author_sfx subject of
        Some g \<Rightarrow> ({g}, {}, {})
      | None \<Rightarrow>
          ({},
           (case rx_match citing_sfx subject of Some g \<Rightarrow> {g} | None \<Rightarrow> {}),
           (case rx_match related_sfx subject of Some g \<Rightarrow> {g} | None \<Rightarrow> {})))"

definition join3 :: "string set \<times> string set \<times> string set
    \<Rightarrow> string set \<times> string set \<times> string set \<Rightarrow> string set \<times> string set \<times> string set" where
  "join3 x y = (fst x \<union> fst y, fst (snd x) \<union> fst (snd y), snd (snd x) \<union> snd (snd y))"

text \<open>The names of the record of a URL, and what a list of triples contributes to a URL.\<close>

definition names_at :: "scraper \<Rightarrow> string \<Rightarrow> (string set \<times> string set \<times> string set) option" where
  "names_at s u = map_option names_of (map_of (papers s) u)"

definition touched :: "(string option \<Rightarrow> string option) \<Rightarrow> (string \<times> string \<times> string) list
    \<Rightarrow> string \<Rightarrow> bool" where
  "touched q ts u = (\<exists>t \<in> set ts. q (Some (fst (snd t))) = Some u)"

definition gathered :: "(string option \<Rightarrow> string option) \<Rightarrow> (string \<times> string \<times> string) list
    \<Rightarrow> string \<Rightarrow> string set \<times> string set \<times> string set" where
  "gathered q ts u =
     (\<Union>t \<in> {t \<in> set ts. q (Some (fst (snd t))) = Some u}. fst (contrib (fst t)),
      \<Union>t \<in> {t \<in> set ts. q (Some (fst (snd t))) = Some u}. fst (snd (contrib (fst t))),
      \<Union>t \<in> {t \<in> set ts. q (Some (fst (snd t))) = Some u}. snd (snd (contrib (fst t))))"

text \<open>One triple, from a state with no pending URL.\<close>

definition step :: "(string option \<Rightarrow> string option) \<Rightarrow> scraper \<Rightarrow> string \<times> string \<times> string
    \<Rightarrow> scraper" where
  "step q s t = feed q (set_subject s (fst t)) (triple_events (fst (snd t)) (snd (snd t)))"

section \<open>Properties of the editor\<close>

subsection \<open>The loops and the segmentation\<close>

lemma segments_nonempty: "segments P ls \<noteq> []"
  by (induction ls) (auto split: list.splits)

lemma segments_length: "length (segments P ls) = Suc (length (filter P ls))"
  by (induction ls) (auto split: list.splits)

lemma segments_concat: "concat (segments P ls) = filter (\<lambda>l. \<not> P l) ls"
  by (induction ls) (auto split: list.splits)

lemma segments_lines:
  assumes "b \<in> set (segments P ls)" and "l \<in> set b"
  shows "l \<in> set ls \<and> \<not> P l"
proof -
  from assms have "l \<in> set (concat (segments P ls))" by auto
  then show ?thesis by (simp add: segments_concat)
qed

lemma prepend_first_Nil: "prepend_first [] (segments P ls) = segments P ls"
  using segments_nonempty [of P ls] by (simp add: prepend_first_def split: list.splits)

lemma show_loop_segments:
  "(case show_loop pat raws lines (list_ex pat lines) out of (out', lines', keep') \<Rightarrow>
        out' @ (if length lines' > 0 then flush_block keep' lines' else []))
   = out @ concat (map render_block (filter (list_ex pat)
        (prepend_first lines (segments (prefix SEP) (map rstrip_nl raws)))))"
proof (induction raws arbitrary: lines out)
  case Nil
  show ?case by (auto simp: prepend_first_def render_block_def flush_block_def)
next
  case (Cons raw rest)
  note nonempty = segments_nonempty [of "prefix SEP" "map rstrip_nl rest"]
  show ?case
  proof (cases "prefix SEP (rstrip_nl raw)")
    case True
    then show ?thesis
      using Cons.IH [of "[]" "out @ flush_block (list_ex pat lines) lines"] nonempty
      by (auto simp: prepend_first_def render_block_def flush_block_def Let_def
               split: list.splits)
  next
    case False
    then show ?thesis
      using Cons.IH [of "lines @ [rstrip_nl raw]" out] nonempty
      by (auto simp: prepend_first_def Let_def split: list.splits)
  qed
qed

lemma drop_loop_segments:
  "(case drop_loop pat raws lines (\<not> list_ex pat lines) out of (out', lines', keep') \<Rightarrow>
        out' @ (if length lines' > 0 then flush_block keep' lines' else []))
   = out @ concat (map render_block (filter (\<lambda>b. \<not> list_ex pat b)
        (drop_last_empty (prepend_first lines (segments (prefix SEP) (map rstrip_nl raws))))))"
proof (induction raws arbitrary: lines out)
  case Nil
  show ?case
    by (auto simp: prepend_first_def render_block_def flush_block_def drop_last_empty_def)
next
  case (Cons raw rest)
  note nonempty = segments_nonempty [of "prefix SEP" "map rstrip_nl rest"]
  show ?case
  proof (cases "prefix SEP (rstrip_nl raw)")
    case True
    then show ?thesis
      using Cons.IH [of "[]" "out @ flush_block (\<not> list_ex pat lines) lines"] nonempty
      by (auto simp: prepend_first_def render_block_def flush_block_def Let_def
               drop_last_empty_def split: list.splits)
  next
    case False
    then show ?thesis
      using Cons.IH [of "lines @ [rstrip_nl raw]" out] nonempty
      by (auto simp: prepend_first_def Let_def drop_last_empty_def split: list.splits)
  qed
qed

lemma show_text_segments:
  "show_text pat text = concat (map render_block (filter (list_ex pat)
     (segments (prefix SEP) (map rstrip_nl (iter_lines text)))))"
  using show_loop_segments [of pat "iter_lines text" "[]" "[]"]
  by (simp add: show_text_def prepend_first_Nil)

lemma drop_text_segments:
  "drop_text pat text = concat (map render_block (filter (\<lambda>b. \<not> list_ex pat b)
     (drop_last_empty (segments (prefix SEP) (map rstrip_nl (iter_lines text))))))"
  using drop_loop_segments [of pat "iter_lines text" "[]" "[]"]
  by (simp add: drop_text_def prepend_first_Nil)

lemma drop_body_segments:
  "drop_body pat None text = (concat (map render_block (filter (\<lambda>b. \<not> list_ex pat b)
     (drop_last_empty (segments (prefix SEP) (map rstrip_nl (iter_lines text)))))), None)"
  by (simp add: drop_body_def drop_text_segments)

text \<open>
  C3 (as amended). In both modes a line is a block boundary exactly when, without its trailing
  line feed, it starts with the separator token: what \<open>--show\<close> prints is the matching runs
  between such lines, and what \<open>--delete\<close> writes is the runs without a match between such
  lines (an empty run at the end of the input left out). A line such as \<open>---x\<close> ends the
  current block, and its own text is not part of any block.
\<close>

theorem segmenter_boundary_is_prefix:
  "show_text pat text = concat (map render_block (filter (list_ex pat)
       (segments (prefix SEP) (map rstrip_nl (iter_lines text)))))
   \<and> drop_body pat None text = (concat (map render_block (filter (\<lambda>b. \<not> list_ex pat b)
       (drop_last_empty (segments (prefix SEP) (map rstrip_nl (iter_lines text)))))), None)"
  by (simp only: show_text_segments drop_body_segments)

text \<open>
  C3 (as stated) fails: were \<open>---x\<close> an ordinary data line, the single block of this input
  would match the pattern \<open>a\<close> and be printed whole; the code prints only its first line.
\<close>

theorem segmenter_boundary_counterexample:
  "show_text (plain_pattern ''a'') ''---\<newline>a\<newline>---x\<newline>b\<newline>''
     = [''---'', [LF], ''a'', [LF]]
   \<and> concat (map render_block (filter (list_ex (plain_pattern ''a''))
        (segments spec_boundary (map rstrip_nl (iter_lines ''---\<newline>a\<newline>---x\<newline>b\<newline>'')))))
     = [''---'', [LF], ''a'', [LF], ''---x'', [LF], ''b'', [LF]]"
  by (simp add: show_text_def plain_pattern_def ascii_lower_def rstrip_nl_def SEP_def
        flush_block_def render_block_def spec_boundary_def Let_def sublist_Cons_right)

subsection \<open>inplace\<close>

lemma unlink_quiet_sel:
  "names (unlink_quiet fs p) = (names fs)(p := None)"
  "inodes (unlink_quiet fs p) = inodes fs"
  "fresh (unlink_quiet fs p) = fresh fs"
  by (cases "names fs p"; simp add: unlink_quiet_def unlink_def fun_upd_idem)+

lemma rename_ok:
  assumes "names fs src = Some i" and "src \<noteq> dst"
  shows "\<exists>s'. rename fs src dst = Inr s' \<and> names s' = ((names fs)(src := None))(dst \<mapsto> i)
           \<and> inodes s' = inodes fs \<and> fresh s' = fresh fs"
  using assms by (simp add: rename_def)

lemma create_trunc_new:
  assumes "names fs p = None"
  shows "\<exists>s'. create_trunc fs p pm = (s', fresh fs) \<and> names s' = (names fs)(p \<mapsto> fresh fs)
           \<and> inodes s' = (inodes fs)(fresh fs \<mapsto> \<lparr>perm = pm, content = []\<rparr>)
           \<and> fresh s' = Suc (fresh fs)"
  using assms by (simp add: create_trunc_def)

lemma set_content_sel:
  assumes "inodes fs j = Some nd"
  shows "names (set_content j fs c) = names fs"
    and "inodes (set_content j fs c) = (inodes fs)(j \<mapsto> nd\<lparr>content := c\<rparr>)"
    and "fresh (set_content j fs c) = fresh fs"
  using assms by (simp_all add: set_content_def)

lemma on_disk_Nil: "on_disk held [] = []"
  by (simp add: on_disk_def)

lemma on_disk_prefix: "prefix (on_disk held ws) (concat ws)"
  by (simp add: on_disk_def take_is_prefix)

lemma last_writes:
  "last (s # map f [1..<Suc n]) = (if n = 0 then s else f n)"
  by (cases n) (simp_all add: last_map del: upt_Suc)

lemma nth_writes:
  assumes "k \<le> n"
  shows "(a # b # c # s # map f [1..<Suc n] @ rest) ! (3 + k) = (if k = 0 then s else f k)"
proof (cases k)
  case 0
  then show ?thesis by simp
next
  case (Suc k')
  then have "k' < n" using assms by simp
  then have "(map f [1..<Suc n] @ rest) ! k' = f (Suc k')"
    by (simp add: nth_append del: upt_Suc)
  then show ?thesis using Suc by simp
qed

lemma nth_after_writes:
  "(a # b # c # s # map f [1..<Suc n] @ rest) ! (n + 4 + m) = rest ! m"
proof -
  have "(a # b # c # s # map f [1..<Suc n] @ rest) ! (n + 4 + m)
      = (map f [1..<Suc n] @ rest) ! (n + m)"
    by (simp add: numeral_eq_Suc)
  also have "\<dots> = rest ! m"
    by (simp add: nth_append del: upt_Suc)
  finally show ?thesis .
qed

lemma inplace_unfold:
  assumes "set mode \<inter> set ''wa+'' = {}"
    and "rename (unlink_quiet fs (filename @ ''.bak'')) filename (filename @ ''.bak'') = Inr s2"
    and "names s2 (filename @ ''.bak'') = Some i" and "inodes s2 i = Some nd"
    and "create_trunc s2 filename (perm nd) = (s3, j)"
    and "body (translate_nl (content nd)) = (chunks, err)"
  shows "inplace held fs filename mode body =
     (let ws = map (\<lambda>k. set_content j s3 (on_disk held (take k chunks))) [1..<Suc (length chunks)];
          s4 = last (s3 # ws)
      in case err of
           None \<Rightarrow>
             ([fs, unlink_quiet fs (filename @ ''.bak''), s2, s3] @ ws
                @ [set_content j s4 (concat chunks),
                   unlink_quiet (set_content j s4 (concat chunks)) (filename @ ''.bak'')], None)
         | Some e \<Rightarrow>
             if is_Exception e
             then (case rename (unlink_quiet s4 filename) (filename @ ''.bak'') filename of
                     Inl e' \<Rightarrow>
                       ([fs, unlink_quiet fs (filename @ ''.bak''), s2, s3] @ ws
                          @ [unlink_quiet s4 filename,
                             set_content j (unlink_quiet s4 filename) (concat chunks),
                             unlink_quiet (set_content j (unlink_quiet s4 filename) (concat chunks))
                               (filename @ ''.bak'')], Some e')
                   | Inr s6 \<Rightarrow>
                       ([fs, unlink_quiet fs (filename @ ''.bak''), s2, s3] @ ws
                          @ [unlink_quiet s4 filename, s6, set_content j s6 (concat chunks),
                             unlink_quiet (set_content j s6 (concat chunks)) (filename @ ''.bak'')],
                        Some e))
             else ([fs, unlink_quiet fs (filename @ ''.bak''), s2, s3] @ ws
                     @ [set_content j s4 (concat chunks),
                        unlink_quiet (set_content j s4 (concat chunks)) (filename @ ''.bak'')],
                   Some e))"
  unfolding inplace_def Let_def
  by (simp only: assms if_False if_True not_not sum.case option.case prod.case simp_thms)

text \<open>The states of a rewrite up to the creation of the new file.\<close>

lemma inplace_setup:
  assumes "names fs filename = Some i" and "inodes fs i = Some nd" and "i < fresh fs"
  shows "\<exists>s2 s3.
      rename (unlink_quiet fs (filename @ ''.bak'')) filename (filename @ ''.bak'') = Inr s2
    \<and> create_trunc s2 filename (perm nd) = (s3, fresh fs)
    \<and> names s2 = ((names fs)(filename @ ''.bak'' \<mapsto> i))(filename := None)
    \<and> inodes s2 = inodes fs
    \<and> names s3 = ((names fs)(filename @ ''.bak'' \<mapsto> i))(filename \<mapsto> fresh fs)
    \<and> inodes s3 = (inodes fs)(fresh fs \<mapsto> \<lparr>perm = perm nd, content = []\<rparr>)"
proof -
  let ?b = "filename @ ''.bak''"
  let ?s1 = "unlink_quiet fs ?b"
  have nb: "filename \<noteq> ?b" by simp
  have "names ?s1 filename = Some i"
    using assms(1) nb by (simp add: unlink_quiet_sel)
  from rename_ok [OF this nb]
  obtain s2 where r2: "rename ?s1 filename ?b = Inr s2"
    and n2: "names s2 = ((names ?s1)(filename := None))(?b \<mapsto> i)"
    and i2: "inodes s2 = inodes ?s1" and f2: "fresh s2 = fresh ?s1"
    by blast
  have n2': "names s2 = ((names fs)(?b \<mapsto> i))(filename := None)"
    using nb by (auto simp: n2 unlink_quiet_sel)
  have "names s2 filename = None"
    by (simp add: n2')
  from create_trunc_new [OF this, of "perm nd"]
  obtain s3 where c3: "create_trunc s2 filename (perm nd) = (s3, fresh s2)"
    and n3: "names s3 = (names s2)(filename \<mapsto> fresh s2)"
    and i3: "inodes s3 = (inodes s2)(fresh s2 \<mapsto> \<lparr>perm = perm nd, content = []\<rparr>)"
    by blast
  have fr: "fresh s2 = fresh fs"
    by (simp add: f2 unlink_quiet_sel)
  show ?thesis
    using r2 c3 n2' n3 i3 by (auto simp: fr i2 unlink_quiet_sel)
qed

lemma inplace_failure:
  assumes "names fs filename = Some i" and "inodes fs i = Some nd" and "i < fresh fs"
    and "set mode \<inter> set ''wa+'' = {}" and "body (translate_nl (content nd)) = (chunks, Some e)"
    and "is_Exception e" and "inplace held fs filename mode body = (tr, res)"
  shows "res = Some e"
    and "length tr = length chunks + 8"
    and "read_path (tr ! 0) filename = Some (content nd)"
    and "read_path (tr ! 1) filename = Some (content nd)"
    and "read_path (tr ! 2) filename = None"
    and "\<forall>k \<le> length chunks. names (tr ! (3 + k)) filename = Some (fresh fs)
           \<and> read_path (tr ! (3 + k)) filename = Some (on_disk held (take k chunks))"
    and "read_path (tr ! (length chunks + 4)) filename = None"
    and "\<forall>m < 3. names (tr ! (length chunks + 5 + m)) filename = Some i
           \<and> inodes (tr ! (length chunks + 5 + m)) i = Some nd
           \<and> read_path (tr ! (length chunks + 5 + m)) filename = Some (content nd)"
    and "names (last tr) = (names fs)(filename @ ''.bak'' := None)"
    and "inodes (last tr) i = Some nd"
    and "read_path (last tr) filename = Some (content nd)"
    and "read_path (last tr) (filename @ ''.bak'') = None"
proof -
  let ?b = "filename @ ''.bak''"
  let ?J = "fresh fs"
  let ?n = "length chunks"
  let ?new = "\<lparr>perm = perm nd, content = []\<rparr>"
  have nb: "filename \<noteq> ?b" by simp
  have iJ: "i \<noteq> ?J" using assms(3) by simp
  from inplace_setup [OF assms(1) assms(2) assms(3)]
  obtain s2 s3 where r2: "rename (unlink_quiet fs ?b) filename ?b = Inr s2"
    and c3: "create_trunc s2 filename (perm nd) = (s3, ?J)"
    and n2: "names s2 = ((names fs)(?b \<mapsto> i))(filename := None)"
    and i2: "inodes s2 = inodes fs"
    and n3: "names s3 = ((names fs)(?b \<mapsto> i))(filename \<mapsto> ?J)"
    and i3: "inodes s3 = (inodes fs)(?J \<mapsto> ?new)"
    by blast
  define f where "f k = set_content ?J s3 (on_disk held (take k chunks))" for k
  define s4 where "s4 = last (s3 # map f [1..<Suc ?n])"
  have j3: "inodes s3 ?J = Some ?new" by (simp add: i3)
  have nf: "names (f k) = names s3" for k
    unfolding f_def by (rule set_content_sel(1) [OF j3])
  have "inodes (f k) = (inodes s3)(?J \<mapsto> ?new\<lparr>content := on_disk held (take k chunks)\<rparr>)" for k
    unfolding f_def by (rule set_content_sel(2) [OF j3])
  then have inf: "inodes (f k) = (inodes fs)(?J \<mapsto> \<lparr>perm = perm nd, content = on_disk held (take k chunks)\<rparr>)" for k
    by (simp add: i3)
  have s4: "names s4 = names s3 \<and> inodes s4 ?J \<noteq> None \<and> inodes s4 i = Some nd"
    using iJ assms(2) by (simp add: s4_def last_writes nf inf i3)
  let ?s5 = "unlink_quiet s4 filename"
  have "names ?s5 ?b = Some i"
    using nb s4 by (simp add: unlink_quiet_sel n3)
  from rename_ok [OF this nb [symmetric]]
  obtain s6 where r6: "rename ?s5 ?b filename = Inr s6"
    and n6: "names s6 = ((names ?s5)(?b := None))(filename \<mapsto> i)"
    and i6: "inodes s6 = inodes ?s5"
    by blast
  let ?s7 = "set_content ?J s6 (concat chunks)"
  let ?s8 = "unlink_quiet ?s7 ?b"
  have 2: "names s2 ?b = Some i" "inodes s2 i = Some nd"
    using nb assms(2) by (simp_all add: n2 i2)
  have "inplace held fs filename mode body
      = ([fs, unlink_quiet fs ?b, s2, s3] @ map f [1..<Suc ?n] @ [?s5, s6, ?s7, ?s8], Some e)"
    unfolding inplace_unfold [where body = body, OF assms(4) r2 2 c3 assms(5)] Let_def f_def [abs_def] s4_def
    by (simp only: option.case assms(6) if_True r6 [unfolded s4_def f_def [abs_def]] sum.case)
  with assms(7) have tr: "tr = fs # unlink_quiet fs ?b # s2 # s3 # map f [1..<Suc ?n] @ [?s5, s6, ?s7, ?s8]"
    and res: "res = Some e"
    by simp_all
  show "res = Some e" by (rule res)
  show "length tr = length chunks + 8"
    by (simp add: tr del: upt_Suc)
  show "read_path (tr ! 0) filename = Some (content nd)"
    using assms(1) assms(2) by (simp add: tr read_path_def)
  show "read_path (tr ! 1) filename = Some (content nd)"
    using assms(1) assms(2) nb by (simp add: tr read_path_def unlink_quiet_sel)
  show "read_path (tr ! 2) filename = None"
    by (simp add: tr read_path_def n2)
  show "\<forall>k \<le> length chunks. names (tr ! (3 + k)) filename = Some (fresh fs)
           \<and> read_path (tr ! (3 + k)) filename = Some (on_disk held (take k chunks))"
  proof (intro allI impI)
    fix k assume k: "k \<le> length chunks"
    have e: "tr ! (3 + k) = (if k = 0 then s3 else f k)"
      unfolding tr by (rule nth_writes [OF k])
    show "names (tr ! (3 + k)) filename = Some (fresh fs)
           \<and> read_path (tr ! (3 + k)) filename = Some (on_disk held (take k chunks))"
      by (simp add: e read_path_def nf inf n3 i3 on_disk_Nil)
  qed
  have a4: "tr ! (?n + 4) = ?s5"
    unfolding tr using nth_after_writes [of fs _ s2 s3 f ?n _ 0] by simp
  have a5: "tr ! (?n + 5 + m) = [s6, ?s7, ?s8] ! m" for m
  proof -
    have "?n + 5 + m = ?n + 4 + Suc m" by simp
    then show ?thesis
      unfolding tr by (simp only: nth_after_writes nth_Cons_Suc)
  qed
  show "read_path (tr ! (length chunks + 4)) filename = None"
    unfolding a4 by (simp add: read_path_def unlink_quiet_sel)
  have i6': "inodes s6 i = Some nd" "inodes s6 ?J \<noteq> None"
    using s4 by (simp_all add: i6 unlink_quiet_sel)
  have n6': "names s6 = ((names fs)(?b := None))(filename \<mapsto> i)"
    using nb s4 by (auto simp: n6 unlink_quiet_sel n3)
  obtain ndJ where ndJ: "inodes s6 ?J = Some ndJ"
    using i6'(2) by blast
  have n7: "names ?s7 = names s6"
    by (rule set_content_sel(1) [OF ndJ])
  have i7: "inodes ?s7 i = Some nd"
    using iJ i6'(1) by (simp add: set_content_sel(2) [OF ndJ])
  show "\<forall>m < 3. names (tr ! (length chunks + 5 + m)) filename = Some i
           \<and> inodes (tr ! (length chunks + 5 + m)) i = Some nd
           \<and> read_path (tr ! (length chunks + 5 + m)) filename = Some (content nd)"
  proof (intro allI impI)
    fix m :: nat assume "m < 3"
    then consider "m = 0" | "m = 1" | "m = 2" by linarith
    then show "names (tr ! (length chunks + 5 + m)) filename = Some i
           \<and> inodes (tr ! (length chunks + 5 + m)) i = Some nd
           \<and> read_path (tr ! (length chunks + 5 + m)) filename = Some (content nd)"
    proof cases
      case 1
      show ?thesis
        unfolding a5 1 using i6' by (simp add: read_path_def n6')
    next
      case 2
      show ?thesis
        unfolding a5 2 using i7 by (simp add: read_path_def n7 n6')
    next
      case 3
      show ?thesis
        unfolding a5 3 using i7 nb by (simp add: read_path_def unlink_quiet_sel n7 n6')
    qed
  qed
  have l: "last tr = ?s8"
    by (simp add: tr del: upt_Suc)
  show "names (last tr) = (names fs)(filename @ ''.bak'' := None)"
    using assms(1) nb by (auto simp: l unlink_quiet_sel n7 n6')
  show "inodes (last tr) i = Some nd"
    using i7 by (simp add: l unlink_quiet_sel)
  show "read_path (last tr) filename = Some (content nd)"
    using i7 nb by (simp add: l read_path_def unlink_quiet_sel n7 n6')
  show "read_path (last tr) (filename @ ''.bak'') = None"
    by (simp add: l read_path_def unlink_quiet_sel)
qed

lemma inplace_success:
  assumes "names fs filename = Some i" and "inodes fs i = Some nd" and "i < fresh fs"
    and "set mode \<inter> set ''wa+'' = {}" and "body (translate_nl (content nd)) = (chunks, None)"
    and "inplace held fs filename mode body = (tr, res)"
  shows "res = None"
    and "length tr = length chunks + 6"
    and "\<forall>k \<le> length chunks. read_path (tr ! (3 + k)) filename = Some (on_disk held (take k chunks))"
    and "read_path (last tr) filename = Some (concat chunks)"
    and "read_path (last tr) (filename @ ''.bak'') = None"
    and "inodes (last tr) (fresh fs) = Some \<lparr>perm = perm nd, content = concat chunks\<rparr>"
proof -
  let ?b = "filename @ ''.bak''"
  let ?J = "fresh fs"
  let ?n = "length chunks"
  let ?new = "\<lparr>perm = perm nd, content = []\<rparr>"
  have nb: "filename \<noteq> ?b" by simp
  from inplace_setup [OF assms(1) assms(2) assms(3)]
  obtain s2 s3 where r2: "rename (unlink_quiet fs ?b) filename ?b = Inr s2"
    and c3: "create_trunc s2 filename (perm nd) = (s3, ?J)"
    and n2: "names s2 = ((names fs)(?b \<mapsto> i))(filename := None)"
    and i2: "inodes s2 = inodes fs"
    and n3: "names s3 = ((names fs)(?b \<mapsto> i))(filename \<mapsto> ?J)"
    and i3: "inodes s3 = (inodes fs)(?J \<mapsto> ?new)"
    by blast
  define f where "f k = set_content ?J s3 (on_disk held (take k chunks))" for k
  define s4 where "s4 = last (s3 # map f [1..<Suc ?n])"
  have j3: "inodes s3 ?J = Some ?new" by (simp add: i3)
  have nf: "names (f k) = names s3" for k
    unfolding f_def by (rule set_content_sel(1) [OF j3])
  have "inodes (f k) = (inodes s3)(?J \<mapsto> ?new\<lparr>content := on_disk held (take k chunks)\<rparr>)" for k
    unfolding f_def by (rule set_content_sel(2) [OF j3])
  then have inf: "inodes (f k) = (inodes fs)(?J \<mapsto> \<lparr>perm = perm nd, content = on_disk held (take k chunks)\<rparr>)" for k
    by (simp add: i3)
  have n4: "names s4 = names s3"
    by (simp add: s4_def last_writes nf)
  have i4: "inodes s4 ?J = Some \<lparr>perm = perm nd, content = on_disk held chunks\<rparr>"
    by (cases chunks) (simp_all add: s4_def last_writes inf i3 on_disk_Nil)
  let ?s5 = "set_content ?J s4 (concat chunks)"
  let ?s6 = "unlink_quiet ?s5 ?b"
  have 2: "names s2 ?b = Some i" "inodes s2 i = Some nd"
    using nb assms(2) by (simp_all add: n2 i2)
  have "inplace held fs filename mode body
      = ([fs, unlink_quiet fs ?b, s2, s3] @ map f [1..<Suc ?n] @ [?s5, ?s6], None)"
    unfolding inplace_unfold [where body = body, OF assms(4) r2 2 c3 assms(5)] Let_def f_def [abs_def] s4_def
    by (simp only: option.case)
  with assms(6) have tr: "tr = fs # unlink_quiet fs ?b # s2 # s3 # map f [1..<Suc ?n] @ [?s5, ?s6]"
    and res: "res = None"
    by simp_all
  show "res = None" by (rule res)
  show "length tr = length chunks + 6"
    by (simp add: tr del: upt_Suc)
  show "\<forall>k \<le> length chunks. read_path (tr ! (3 + k)) filename = Some (on_disk held (take k chunks))"
  proof (intro allI impI)
    fix k assume k: "k \<le> length chunks"
    have e: "tr ! (3 + k) = (if k = 0 then s3 else f k)"
      unfolding tr by (rule nth_writes [OF k])
    show "read_path (tr ! (3 + k)) filename = Some (on_disk held (take k chunks))"
      by (simp add: e read_path_def nf inf n3 i3 on_disk_Nil)
  qed
  have l: "last tr = ?s6"
    by (simp add: tr del: upt_Suc)
  have n5: "names ?s5 = names s3"
    using set_content_sel(1) [OF i4] n4 by simp
  have i5: "inodes ?s5 ?J = Some \<lparr>perm = perm nd, content = concat chunks\<rparr>"
    by (simp add: set_content_sel(2) [OF i4])
  show "read_path (last tr) filename = Some (concat chunks)"
    using nb i5 by (simp add: l read_path_def unlink_quiet_sel n5 n3)
  show "read_path (last tr) (filename @ ''.bak'') = None"
    by (simp add: l read_path_def unlink_quiet_sel)
  show "inodes (last tr) (fresh fs) = Some \<lparr>perm = perm nd, content = concat chunks\<rparr>"
    using i5 by (simp add: l unlink_quiet_sel)
qed

lemma single_file_names: "names (single_file n c) n = Some 0"
  by (simp add: single_file_def)

lemma single_file_inodes: "inodes (single_file n c) 0 = Some \<lparr>perm = 420, content = c\<rparr>"
  by (simp add: single_file_def)

lemma single_file_fresh: "0 < fresh (single_file n c)"
  by (simp add: single_file_def)

lemma mode_r: "set ''r'' \<inter> set ''wa+'' = {}"
  by simp

lemma drop_text_example0:
  "drop_text (plain_pattern ''Z'') ''---\<newline>A\<newline>---\<newline>B\<newline>''
     = [''---'', [LF], ''---'', [LF], ''A'', [LF], ''---'', [LF], ''B'', [LF]]"
  by (simp add: drop_text_def plain_pattern_def ascii_lower_def rstrip_nl_def SEP_def
        flush_block_def Let_def sublist_Cons_right)

lemma drop_body_read_fault:
  "drop_body (plain_pattern ''Z'') (Some (ReadFault 3 UnicodeDecodeError))
      (translate_nl (content \<lparr>perm = 420, content = ''---\<newline>A\<newline>---\<newline>B\<newline>''\<rparr>))
     = ([''---'', [LF], ''---'', [LF], ''A'', [LF]], Some UnicodeDecodeError)"
  by (simp add: drop_body_def plain_pattern_def ascii_lower_def rstrip_nl_def SEP_def
        flush_block_def Let_def sublist_Cons_right)

lemma drop_body_write_fault:
  "drop_body (plain_pattern ''Z'') (Some (WriteFault 5 OSError))
      (translate_nl (content \<lparr>perm = 420, content = ''---\<newline>A\<newline>---\<newline>B\<newline>''\<rparr>))
     = ([''---'', [LF], ''---'', [LF], ''A''], Some OSError)"
  using drop_text_example0 by (simp add: drop_body_def)

text \<open>
  C1 (as amended). When the body of the rewrite of \<open>--delete\<close> ends with an exception derived
  from \<open>Exception\<close>, raised by the read of a line or by a write, \<open>drop_blocks\<close> ends with that
  exception after these steps. Before the rename (steps 0 and 1) the original path holds the
  original content. After the rename (step 2) it names no file. From the creation of the new
  file (step 3) and after each of the writes made (steps 4 to \<open>n + 3\<close> for \<open>n\<close> writes) it
  names the new file, which holds the part of the text written so far that has left the
  buffer: nothing at step 3. Then the new file is unlinked (step \<open>n + 4\<close>: the path names no
  file), and the backup is renamed back: at the last three steps the original path names the
  original inode again, with its content and permissions. At the end the names are those of
  the start, but for the backup path, which names no file.
\<close>

theorem drop_blocks_rollback:
  assumes "names fs fname = Some i" and "inodes fs i = Some nd" and "i < fresh fs"
    and "drop_body pat fault (translate_nl (content nd)) = (chunks, Some e)"
    and "is_Exception e"
    and "drop_blocks held fs fname pat fault = (tr, res)"
  shows "res = Some e
    \<and> length tr = length chunks + 8
    \<and> read_path (tr ! 0) fname = Some (content nd)
    \<and> read_path (tr ! 1) fname = Some (content nd)
    \<and> read_path (tr ! 2) fname = None
    \<and> (\<forall>k \<le> length chunks. names (tr ! (3 + k)) fname = Some (fresh fs)
           \<and> read_path (tr ! (3 + k)) fname = Some (on_disk held (take k chunks)))
    \<and> read_path (tr ! (length chunks + 4)) fname = None
    \<and> (\<forall>m < 3. names (tr ! (length chunks + 5 + m)) fname = Some i
           \<and> inodes (tr ! (length chunks + 5 + m)) i = Some nd
           \<and> read_path (tr ! (length chunks + 5 + m)) fname = Some (content nd))
    \<and> names (last tr) = (names fs)(fname @ ''.bak'' := None)
    \<and> inodes (last tr) i = Some nd
    \<and> read_path (last tr) fname = Some (content nd)
    \<and> read_path (last tr) (fname @ ''.bak'') = None"
proof -
  note f = inplace_failure [where body = "drop_body pat fault", OF assms(1) assms(2) assms(3)
      mode_r assms(4) assms(5) assms(6) [unfolded drop_blocks_def]]
  show ?thesis
    by (intro conjI) (rule f)+
qed

theorem drop_blocks_rollback_witness:
  "snd (drop_blocks held_until_close (single_file ''f'' ''---\<newline>A\<newline>---\<newline>B\<newline>'') ''f''
         (plain_pattern ''Z'') (Some (ReadFault 3 UnicodeDecodeError))) = Some UnicodeDecodeError
   \<and> length (fst (drop_blocks held_until_close (single_file ''f'' ''---\<newline>A\<newline>---\<newline>B\<newline>'')
         ''f'' (plain_pattern ''Z'') (Some (ReadFault 3 UnicodeDecodeError)))) = 14
   \<and> read_path (fst (drop_blocks held_until_close (single_file ''f'' ''---\<newline>A\<newline>---\<newline>B\<newline>'')
         ''f'' (plain_pattern ''Z'') (Some (ReadFault 3 UnicodeDecodeError))) ! 2) ''f'' = None
   \<and> read_path (fst (drop_blocks held_until_close (single_file ''f'' ''---\<newline>A\<newline>---\<newline>B\<newline>'')
         ''f'' (plain_pattern ''Z'') (Some (ReadFault 3 UnicodeDecodeError))) ! 9) ''f'' = Some []
   \<and> read_path (fst (drop_blocks held_until_close (single_file ''f'' ''---\<newline>A\<newline>---\<newline>B\<newline>'')
         ''f'' (plain_pattern ''Z'') (Some (ReadFault 3 UnicodeDecodeError))) ! 10) ''f'' = None
   \<and> read_path (fst (drop_blocks held_until_close (single_file ''f'' ''---\<newline>A\<newline>---\<newline>B\<newline>'')
         ''f'' (plain_pattern ''Z'') (Some (ReadFault 3 UnicodeDecodeError))) ! 11) ''f''
       = Some ''---\<newline>A\<newline>---\<newline>B\<newline>''
   \<and> read_path (last (fst (drop_blocks held_until_close
         (single_file ''f'' ''---\<newline>A\<newline>---\<newline>B\<newline>'') ''f'' (plain_pattern ''Z'')
         (Some (ReadFault 3 UnicodeDecodeError))))) ''f'' = Some ''---\<newline>A\<newline>---\<newline>B\<newline>''
   \<and> read_path (last (fst (drop_blocks held_until_close
         (single_file ''f'' ''---\<newline>A\<newline>---\<newline>B\<newline>'') ''f'' (plain_pattern ''Z'')
         (Some (ReadFault 3 UnicodeDecodeError))))) ''f.bak'' = None
   \<and> snd (drop_blocks (\<lambda>ws. 0) (single_file ''f'' ''---\<newline>A\<newline>---\<newline>B\<newline>'') ''f''
         (plain_pattern ''Z'') (Some (WriteFault 5 OSError))) = Some OSError
   \<and> read_path (fst (drop_blocks (\<lambda>ws. 0) (single_file ''f'' ''---\<newline>A\<newline>---\<newline>B\<newline>'') ''f''
         (plain_pattern ''Z'') (Some (WriteFault 5 OSError))) ! 8) ''f'' = Some ''---\<newline>---\<newline>A''
   \<and> read_path (last (fst (drop_blocks (\<lambda>ws. 0)
         (single_file ''f'' ''---\<newline>A\<newline>---\<newline>B\<newline>'') ''f'' (plain_pattern ''Z'')
         (Some (WriteFault 5 OSError))))) ''f'' = Some ''---\<newline>A\<newline>---\<newline>B\<newline>''"
proof -
  let ?fs = "single_file ''f'' ''---\<newline>A\<newline>---\<newline>B\<newline>''"
  let ?r = "drop_blocks held_until_close ?fs ''f'' (plain_pattern ''Z'')
      (Some (ReadFault 3 UnicodeDecodeError))"
  let ?w = "drop_blocks (\<lambda>ws. 0) ?fs ''f'' (plain_pattern ''Z'') (Some (WriteFault 5 OSError))"
  have e: "is_Exception UnicodeDecodeError" "is_Exception OSError" by simp_all
  have pr: "?r = (fst ?r, snd ?r)" and pw: "?w = (fst ?w, snd ?w)" by simp_all
  note r = drop_blocks_rollback [OF single_file_names single_file_inodes single_file_fresh
      drop_body_read_fault e(1) pr]
  note w = drop_blocks_rollback [OF single_file_names single_file_inodes single_file_fresh
      drop_body_write_fault e(2) pw]
  note rk = r [THEN conjunct2, THEN conjunct2, THEN conjunct2, THEN conjunct2, THEN conjunct2,
      THEN conjunct1, rule_format]
  note rm = r [THEN conjunct2, THEN conjunct2, THEN conjunct2, THEN conjunct2, THEN conjunct2,
      THEN conjunct2, THEN conjunct2, THEN conjunct1, rule_format]
  note wk = w [THEN conjunct2, THEN conjunct2, THEN conjunct2, THEN conjunct2, THEN conjunct2,
      THEN conjunct1, rule_format]
  have r9: "read_path (fst ?r ! 9) ''f'' = Some []"
    using rk [of 6] by (simp add: on_disk_def held_until_close_def)
  have r11: "read_path (fst ?r ! 11) ''f'' = Some ''---\<newline>A\<newline>---\<newline>B\<newline>''"
    using rm [of 0] by simp
  have w8: "read_path (fst ?w ! 8) ''f'' = Some ''---\<newline>---\<newline>A''"
    using wk [of 5] by (simp add: on_disk_def)
  have r2: "read_path (fst ?r ! 2) ''f'' = None"
    using r by simp
  have r10: "read_path (fst ?r ! 10) ''f'' = None"
    using r by simp
  show ?thesis
    using r r2 r9 r10 r11 w8 w by simp
qed

text \<open>
  C1 (as stated) fails in its last part. In this run the read of the fourth line raises. After
  the rename to the backup path the original path names no file (step 2); once the new file
  is created it holds an empty file (step 3), and still does after the six writes made before
  the exception (step 9), as the text written is in the buffer: neither the original content
  nor the rewritten one.
\<close>

theorem drop_blocks_partial_counterexample:
  "read_path (fst (drop_blocks held_until_close (single_file ''f'' ''---\<newline>A\<newline>---\<newline>B\<newline>'')
       ''f'' (plain_pattern ''Z'') (Some (ReadFault 3 UnicodeDecodeError))) ! 2) ''f'' = None
   \<and> read_path (fst (drop_blocks held_until_close (single_file ''f'' ''---\<newline>A\<newline>---\<newline>B\<newline>'')
       ''f'' (plain_pattern ''Z'') (Some (ReadFault 3 UnicodeDecodeError))) ! 3) ''f'' = Some []
   \<and> read_path (fst (drop_blocks held_until_close (single_file ''f'' ''---\<newline>A\<newline>---\<newline>B\<newline>'')
       ''f'' (plain_pattern ''Z'') (Some (ReadFault 3 UnicodeDecodeError))) ! 9) ''f'' = Some []"
proof -
  let ?fs = "single_file ''f'' ''---\<newline>A\<newline>---\<newline>B\<newline>''"
  let ?b = "drop_body (plain_pattern ''Z'') (Some (ReadFault 3 UnicodeDecodeError))"
  let ?r = "inplace held_until_close ?fs ''f'' ''r'' ?b"
  have e: "is_Exception UnicodeDecodeError" by simp
  have pr: "?r = (fst ?r, snd ?r)" by simp
  note f = inplace_failure [where body = ?b, OF single_file_names single_file_inodes
      single_file_fresh mode_r drop_body_read_fault e pr]
  have 2: "read_path (fst ?r ! 2) ''f'' = None"
    by (rule f(5))
  have 3: "read_path (fst ?r ! 3) ''f'' = Some []"
    using f(6) [rule_format, of 0] by (simp add: on_disk_def)
  have 9: "read_path (fst ?r ! 9) ''f'' = Some []"
    using f(6) [rule_format, of 6] by (simp add: on_disk_def held_until_close_def)
  show ?thesis
    unfolding drop_blocks_def using 2 3 9 by simp
qed

subsection \<open>Empty blocks and the rewrite without a match\<close>

lemma drop_body_example1:
  "drop_body (plain_pattern ''Z'') None (translate_nl ''---\<newline>A\<newline>'')
     = ([''---'', [LF], ''---'', [LF], ''A'', [LF]], None)"
  by (simp add: drop_body_def drop_text_def plain_pattern_def ascii_lower_def rstrip_nl_def
        SEP_def flush_block_def Let_def sublist_Cons_right)

text \<open>
  C4. In delete mode the flush at a separator line has no test for an empty block. On a file
  holding the single block \<open>A\<close> and a pattern without a match, the first thing written is a
  separator line with no content line after it, whatever the buffering.
\<close>

theorem drop_blocks_empty_block:
  "drop_body (plain_pattern ''Z'') None (translate_nl ''---\<newline>A\<newline>'')
     = (flush_block True [] @ flush_block True [''A''], None)
   \<and> read_path (last (fst (drop_blocks held (single_file ''f'' ''---\<newline>A\<newline>'') ''f''
         (plain_pattern ''Z'') None))) ''f'' = Some ''---\<newline>---\<newline>A\<newline>''"
proof -
  let ?r = "inplace held (single_file ''f'' ''---\<newline>A\<newline>'') ''f'' ''r''
      (drop_body (plain_pattern ''Z'') None)"
  have b: "drop_body (plain_pattern ''Z'') None
      (translate_nl (content \<lparr>perm = 420, content = ''---\<newline>A\<newline>''\<rparr>))
     = ([''---'', [LF], ''---'', [LF], ''A'', [LF]], None)"
    using drop_body_example1 by simp
  have pr: "?r = (fst ?r, snd ?r)" by simp
  note f = inplace_success [where body = "drop_body (plain_pattern ''Z'') None",
      OF single_file_names single_file_inodes single_file_fresh mode_r b pr]
  show ?thesis
    unfolding drop_blocks_def using f(4) drop_body_example1
    by (simp add: flush_block_def SEP_def)
qed

lemma drop_body_example2:
  "drop_body (plain_pattern ''Z'') None
      (translate_nl ''---\<newline>A\<newline>urlA\<newline>---\<newline>B\<newline>urlB\<newline>'')
     = ([''---'', [LF], ''---'', [LF], ''A'', [LF], ''urlA'', [LF],
         ''---'', [LF], ''B'', [LF], ''urlB'', [LF]], None)"
  by (simp add: drop_body_def drop_text_def plain_pattern_def ascii_lower_def rstrip_nl_def
        SEP_def flush_block_def Let_def sublist_Cons_right)

lemma no_match_example2:
  "\<not> list_ex (plain_pattern ''Z'')
       (file_lines ''---\<newline>A\<newline>urlA\<newline>---\<newline>B\<newline>urlB\<newline>'')"
  by (simp add: file_lines_def plain_pattern_def ascii_lower_def rstrip_nl_def
        sublist_Cons_right)

text \<open>
  C6. On the file of two blocks of the specification's example, \<open>--delete\<close> with a pattern
  that matches no line writes one more separator line at the start of the file, whatever the
  buffering.
\<close>

theorem drop_blocks_no_match_changes_file:
  "\<not> list_ex (plain_pattern ''Z'')
       (file_lines ''---\<newline>A\<newline>urlA\<newline>---\<newline>B\<newline>urlB\<newline>'')
   \<and> read_path (last (fst (drop_blocks held
         (single_file ''f'' ''---\<newline>A\<newline>urlA\<newline>---\<newline>B\<newline>urlB\<newline>'') ''f''
         (plain_pattern ''Z'') None))) ''f''
     = Some ''---\<newline>---\<newline>A\<newline>urlA\<newline>---\<newline>B\<newline>urlB\<newline>''"
proof -
  let ?r = "inplace held (single_file ''f'' ''---\<newline>A\<newline>urlA\<newline>---\<newline>B\<newline>urlB\<newline>'')
      ''f'' ''r'' (drop_body (plain_pattern ''Z'') None)"
  have b: "drop_body (plain_pattern ''Z'') None
      (translate_nl (content \<lparr>perm = 420,
         content = ''---\<newline>A\<newline>urlA\<newline>---\<newline>B\<newline>urlB\<newline>''\<rparr>))
     = ([''---'', [LF], ''---'', [LF], ''A'', [LF], ''urlA'', [LF],
         ''---'', [LF], ''B'', [LF], ''urlB'', [LF]], None)"
    using drop_body_example2 by simp
  have pr: "?r = (fst ?r, snd ?r)" by simp
  note f = inplace_success [where body = "drop_body (plain_pattern ''Z'') None",
      OF single_file_names single_file_inodes single_file_fresh mode_r b pr]
  show ?thesis
    unfolding drop_blocks_def using f(4) no_match_example2 by simp
qed

subsection \<open>main without --file\<close>

text \<open>
  C10 (as amended). With no \<open>--file\<close> option, exactly one of \<open>--show\<close> and \<open>--delete\<close> given a
  non-empty pattern that compiles, and the other absent or empty, \<open>main\<close> prints nothing,
  touches no file and ends with an uncaught \<open>TypeError\<close>.
\<close>

theorem main_without_file:
  assumes "arg_file a = None"
    and "(arg_show a = Some s \<and> \<not> truthy (arg_delete a))
         \<or> (arg_delete a = Some s \<and> \<not> truthy (arg_show a))"
    and "s \<noteq> []" and "compile s = Some pat"
  shows "main compile held fs stdin a = ([], fs, Raised TypeError)"
  using assms by (auto simp add: main_def truthy_def split: option.splits)

theorem main_without_file_witness:
  "main compile_plain held_until_close (single_file ''f'' ''---\<newline>A\<newline>'') []
      \<lparr>arg_show = Some ''A'', arg_delete = None, arg_file = None\<rparr>
    = ([], single_file ''f'' ''---\<newline>A\<newline>'', Raised TypeError)
   \<and> main compile_plain held_until_close (single_file ''f'' ''---\<newline>A\<newline>'') []
      \<lparr>arg_show = None, arg_delete = Some ''A'', arg_file = None\<rparr>
    = ([], single_file ''f'' ''---\<newline>A\<newline>'', Raised TypeError)"
  using main_without_file [of "\<lparr>arg_show = Some ''A'', arg_delete = None, arg_file = None\<rparr>"
          "''A''" compile_plain "plain_pattern ''A''" held_until_close
          "single_file ''f'' ''---\<newline>A\<newline>''" "[]"]
        main_without_file [of "\<lparr>arg_show = None, arg_delete = Some ''A'', arg_file = None\<rparr>"
          "''A''" compile_plain "plain_pattern ''A''" held_until_close
          "single_file ''f'' ''---\<newline>A\<newline>''" "[]"]
  by (simp add: truthy_def compile_plain_def)

text \<open>
  C10 (as stated) fails when the one option given has the empty string as its pattern: the
  usage diagnostic is printed and the exit status is 1.
\<close>

theorem main_without_file_counterexample:
  "main compile_plain held_until_close (single_file ''f'' ''---\<newline>A\<newline>'') []
      \<lparr>arg_show = Some [], arg_delete = None, arg_file = None\<rparr>
    = ([''must pass one of --show or --delete'', [LF]], single_file ''f'' ''---\<newline>A\<newline>'', Exited 1)"
  by (simp add: main_def truthy_def)

subsection \<open>Show and delete\<close>

lemma translate_nl_no_CR: "CR \<notin> set (translate_nl s)"
  by (induction s rule: translate_nl.induct) auto

lemma translate_nl_id: "CR \<notin> set s \<Longrightarrow> translate_nl s = s"
  by (induction s rule: translate_nl.induct) auto

lemma iter_lines_shape: "l \<in> set (iter_lines s) \<Longrightarrow> l \<noteq> [] \<and> LF \<notin> set (butlast l)"
  by (induction s arbitrary: l) (auto split: if_splits list.splits)

lemma iter_lines_subset: "l \<in> set (iter_lines s) \<Longrightarrow> set l \<subseteq> set s"
proof (induction s arbitrary: l)
  case Nil
  then show ?case by simp
next
  case (Cons c cs)
  show ?case
  proof (cases "c = LF")
    case True
    then show ?thesis using Cons by auto
  next
    case False
    show ?thesis
    proof (cases "iter_lines cs")
      case Nil
      then show ?thesis using Cons.prems False by simp
    next
      case (Cons l' ls')
      then have "set l' \<subseteq> set cs" and "\<forall>k \<in> set ls'. set k \<subseteq> set cs"
        using Cons.IH by auto
      then show ?thesis
        using Cons.prems False Cons by auto
    qed
  qed
qed

lemma filter_swap: "filter P (filter Q xs) = filter Q (filter P xs)"
  by (induction xs) auto

lemma rstrip_nl_id: "LF \<notin> set xs \<Longrightarrow> rstrip_nl xs = xs"
  by (cases "rev xs") (auto simp: rstrip_nl_def)

lemma rstrip_nl_snoc: "rstrip_nl (xs @ [x]) = (if x = LF then rstrip_nl xs else xs @ [x])"
  by (simp add: rstrip_nl_def)

lemma rstrip_nl_subset: "set (rstrip_nl l) \<subseteq> set l"
  using set_dropWhileD [of _ "\<lambda>c. c = LF" "rev l"] by (auto simp: rstrip_nl_def)

lemma rstrip_nl_no_LF:
  assumes "LF \<notin> set (butlast l)"
  shows "LF \<notin> set (rstrip_nl l)"
proof (cases "l = []")
  case True
  then show ?thesis by (simp add: rstrip_nl_def)
next
  case False
  then have "l = butlast l @ [last l]" by simp
  then have "rstrip_nl l = (if last l = LF then rstrip_nl (butlast l) else l)"
    using rstrip_nl_snoc [of "butlast l" "last l"] by simp
  moreover have "rstrip_nl (butlast l) = butlast l"
    using assms by (rule rstrip_nl_id)
  ultimately show ?thesis
    using assms \<open>l = butlast l @ [last l]\<close>
    by (metis Un_iff empty_iff empty_set set_ConsD set_append)
qed

lemma file_lines_clean:
  assumes "l \<in> set (file_lines c)"
  shows "LF \<notin> set l \<and> CR \<notin> set l"
proof -
  from assms obtain raw where raw: "raw \<in> set (iter_lines (translate_nl c))" and l: "l = rstrip_nl raw"
    by (auto simp: file_lines_def)
  have "LF \<notin> set l"
    using iter_lines_shape [OF raw] l rstrip_nl_no_LF by blast
  moreover have "set l \<subseteq> set (translate_nl c)"
    using rstrip_nl_subset [of raw] iter_lines_subset [OF raw] l by blast
  then have "CR \<notin> set l"
    using translate_nl_no_CR [of c] by blast
  ultimately show ?thesis by simp
qed

lemma iter_lines_line: "LF \<notin> set k \<Longrightarrow> iter_lines (k @ LF # rest) = (k @ [LF]) # iter_lines rest"
  by (induction k) auto

lemma reread_lines:
  "(\<forall>k \<in> set ls. LF \<notin> set k) \<Longrightarrow>
   map rstrip_nl (iter_lines (concat (map (\<lambda>k. k @ [LF]) ls))) = ls"
proof (induction ls)
  case Nil
  then show ?case by simp
next
  case (Cons k ls)
  then have k: "LF \<notin> set k" by simp
  have "concat (map (\<lambda>k. k @ [LF]) (k # ls)) = k @ LF # concat (map (\<lambda>k. k @ [LF]) ls)"
    by simp
  then show ?case
    using Cons iter_lines_line [OF k] rstrip_nl_snoc [of k LF] rstrip_nl_id [OF k] by simp
qed

lemma concat_render:
  "concat (concat (map render_block bs)) = concat (map (\<lambda>k. k @ [LF]) (concat (map (\<lambda>b. SEP # b) bs)))"
proof -
  have "concat (render_block b) = concat (map (\<lambda>k. k @ [LF]) (SEP # b))" for b
    by (induction b) (auto simp: render_block_def flush_block_def)
  then show ?thesis
    by (induction bs) auto
qed

lemma segments_append_clean:
  "(\<forall>l \<in> set b. \<not> P l) \<Longrightarrow> segments P (b @ xs) = prepend_first b (segments P xs)"
  using segments_nonempty [of P xs]
  by (induction b) (auto simp: prepend_first_def split: list.splits)

lemma segments_render:
  "(\<forall>b \<in> set bs. \<forall>l \<in> set b. \<not> P l) \<Longrightarrow> P sep \<Longrightarrow>
   segments P (concat (map (\<lambda>b. sep # b) bs)) = [] # bs"
proof (induction bs)
  case Nil
  then show ?case by simp
next
  case (Cons b bs)
  then have "segments P (concat (map (\<lambda>b. sep # b) bs)) = [] # bs" by simp
  moreover have "\<forall>l \<in> set b. \<not> P l" using Cons.prems by simp
  ultimately show ?case
    using Cons.prems(2) by (simp add: segments_append_clean prepend_first_def)
qed

lemma SEP_clean: "LF \<notin> set SEP \<and> CR \<notin> set SEP"
  by (simp add: SEP_def)

lemma blocks_by_render:
  assumes "\<forall>b \<in> set bs. \<forall>l \<in> set b. LF \<notin> set l \<and> CR \<notin> set l \<and> \<not> P l" and "P SEP"
  shows "blocks_by P (concat (concat (map render_block bs))) = filter (\<lambda>b. b \<noteq> []) bs"
proof -
  let ?ls = "concat (map (\<lambda>b. SEP # b) bs)"
  let ?text = "concat (map (\<lambda>k. k @ [LF]) ?ls)"
  have clean: "\<forall>k \<in> set ?ls. LF \<notin> set k \<and> CR \<notin> set k"
    using assms(1) SEP_clean by auto
  then have "CR \<notin> set ?text" by auto
  then have "translate_nl ?text = ?text" by (rule translate_nl_id)
  moreover have "map rstrip_nl (iter_lines ?text) = ?ls"
    using clean by (intro reread_lines) blast
  ultimately have "file_lines ?text = ?ls"
    by (simp add: file_lines_def)
  moreover have "segments P ?ls = [] # bs"
    using assms by (intro segments_render) auto
  ultimately show ?thesis
    by (simp add: blocks_by_def concat_render)
qed

lemma segments_file_lines_clean:
  assumes "b \<in> set (segments (prefix SEP) (file_lines c))" and "l \<in> set b"
  shows "LF \<notin> set l \<and> CR \<notin> set l \<and> \<not> spec_boundary l"
  using segments_lines [OF assms] file_lines_clean [of l c] by (auto simp: spec_boundary_def)

lemma filter_drop_last_empty:
  "filter (\<lambda>b. b \<noteq> []) (drop_last_empty bss) = filter (\<lambda>b. b \<noteq> []) bss"
proof (cases "bss \<noteq> [] \<and> last bss = []")
  case True
  then have "bss = butlast bss @ [[]]"
    by (metis append_butlast_last_id)
  then have "filter (\<lambda>b. b \<noteq> []) bss = filter (\<lambda>b. b \<noteq> []) (butlast bss)"
    by (metis (mono_tags, lifting) append_Nil2 filter.simps(1,2) filter_append)
  then show ?thesis using True by (simp add: drop_last_empty_def)
next
  case False
  then show ?thesis by (auto simp: drop_last_empty_def)
qed

text \<open>
  What either mode writes is read back the same way by both separator tests: the separator
  lines written are the token itself, and no line of a block starts with it.
\<close>

lemma show_text_blocks:
  "spec_blocks (concat (show_text pat (translate_nl c))) = filter (list_ex pat) (code_blocks c)"
proof -
  let ?S = "segments (prefix SEP) (file_lines c)"
  have "show_text pat (translate_nl c) = concat (map render_block (filter (list_ex pat) ?S))"
    by (simp add: show_text_segments file_lines_def)
  moreover have "blocks_by spec_boundary (concat (concat (map render_block (filter (list_ex pat) ?S))))
      = filter (\<lambda>b. b \<noteq> []) (filter (list_ex pat) ?S)"
    using segments_file_lines_clean [of _ c]
    by (intro blocks_by_render) (auto simp: spec_boundary_def)
  moreover have "filter (\<lambda>b. b \<noteq> []) (filter (list_ex pat) ?S)
      = filter (list_ex pat) (filter (\<lambda>b. b \<noteq> []) ?S)"
    by (rule filter_swap)
  ultimately show ?thesis by (simp add: spec_blocks_def code_blocks_def blocks_by_def)
qed

lemma drop_text_blocks:
  "spec_blocks (concat (drop_text pat (translate_nl c)))
     = filter (\<lambda>b. \<not> list_ex pat b) (code_blocks c)"
proof -
  let ?S = "segments (prefix SEP) (file_lines c)"
  let ?K = "filter (\<lambda>b. \<not> list_ex pat b) (drop_last_empty ?S)"
  have "drop_text pat (translate_nl c) = concat (map render_block ?K)"
    by (simp add: drop_text_segments file_lines_def)
  moreover have "set (drop_last_empty ?S) \<subseteq> set ?S"
    by (auto simp: drop_last_empty_def dest: in_set_butlastD)
  then have "blocks_by spec_boundary (concat (concat (map render_block ?K)))
      = filter (\<lambda>b. b \<noteq> []) ?K"
    using segments_file_lines_clean [of _ c]
    by (intro blocks_by_render) (auto simp: spec_boundary_def)
  moreover have "filter (\<lambda>b. b \<noteq> []) ?K
      = filter (\<lambda>b. \<not> list_ex pat b) (filter (\<lambda>b. b \<noteq> []) (drop_last_empty ?S))"
    by (rule filter_swap)
  ultimately show ?thesis
    by (simp add: spec_blocks_def code_blocks_def blocks_by_def filter_drop_last_empty)
qed

lemma segments_cong: "(\<forall>l \<in> set ls. P l = Q l) \<Longrightarrow> segments P ls = segments Q ls"
  by (induction ls) auto

lemma code_blocks_spec:
  "(\<forall>l \<in> set (file_lines c). prefix SEP l \<longrightarrow> l = SEP) \<Longrightarrow> code_blocks c = spec_blocks c"
proof -
  assume a: "\<forall>l \<in> set (file_lines c). prefix SEP l \<longrightarrow> l = SEP"
  have "segments (prefix SEP) (file_lines c) = segments spec_boundary (file_lines c)"
    using a by (intro segments_cong) (auto simp: spec_boundary_def)
  then show ?thesis
    by (simp add: code_blocks_def spec_blocks_def blocks_by_def)
qed

text \<open>
  C5 (as amended). Take a file that exists and is not named \<open>-\<close>, a run of \<open>--show\<close> and a
  run of \<open>--delete\<close> on that same file, both without a failing read or write, and as the
  blocks of the file the non-empty runs of lines between the lines that start with the
  separator token (the separator test of the code). Both runs end without an exception. The
  blocks of what \<open>--show\<close> printed are the blocks of the file with a matching line, in order;
  the blocks of the file that \<open>--delete\<close> leaves are the blocks of the file without a
  matching line, in order; the two together are the blocks of the file, each as often as it
  occurs there, and no block is in both. When every line of the file that starts with the
  token is the token itself, these are the blocks of the specification.
\<close>

theorem show_delete_partition:
  assumes "names fs fname = Some i" and "inodes fs i = Some nd" and "i < fresh fs"
    and "fname \<noteq> ''-''"
    and "show_blocks fs stdin fname pat None = (w, r)"
    and "drop_blocks held fs fname pat None = (tr, r')"
  shows "r = None \<and> r' = None
    \<and> (\<exists>c'. read_path (last tr) fname = Some c'
          \<and> spec_blocks (concat w) = filter (list_ex pat) (code_blocks (content nd))
          \<and> spec_blocks c' = filter (\<lambda>b. \<not> list_ex pat b) (code_blocks (content nd))
          \<and> mset (spec_blocks (concat w)) + mset (spec_blocks c') = mset (code_blocks (content nd))
          \<and> set (spec_blocks (concat w)) \<inter> set (spec_blocks c') = {})
    \<and> ((\<forall>l \<in> set (file_lines (content nd)). prefix SEP l \<longrightarrow> l = SEP)
          \<longrightarrow> code_blocks (content nd) = spec_blocks (content nd))"
proof -
  have shown: "w = show_text pat (translate_nl (content nd))" and r: "r = None"
    using assms(1) assms(2) assms(4) assms(5)
    by (simp_all add: show_blocks_def read_path_def show_body_def)
  have b: "drop_body pat None (translate_nl (content nd))
      = (drop_text pat (translate_nl (content nd)), None)"
    by (simp add: drop_body_def)
  note f = inplace_success [where body = "drop_body pat None", OF assms(1) assms(2) assms(3)
      mode_r b assms(6) [unfolded drop_blocks_def]]
  let ?c' = "concat (drop_text pat (translate_nl (content nd)))"
  have 1: "spec_blocks (concat w) = filter (list_ex pat) (code_blocks (content nd))"
    unfolding shown by (rule show_text_blocks)
  have 2: "spec_blocks ?c' = filter (\<lambda>b. \<not> list_ex pat b) (code_blocks (content nd))"
    by (rule drop_text_blocks)
  have 3: "mset (spec_blocks (concat w)) + mset (spec_blocks ?c') = mset (code_blocks (content nd))"
    unfolding 1 2 by simp
  have 4: "set (spec_blocks (concat w)) \<inter> set (spec_blocks ?c') = {}"
    unfolding 1 2 by auto
  show ?thesis
    using r f(1) f(4) 1 2 3 4 code_blocks_spec [of "content nd"] by blast
qed

lemma code_blocks_example:
  "code_blocks ''---\<newline>A\<newline>urlA\<newline>---\<newline>B\<newline>urlB\<newline>'' = [[''A'', ''urlA''], [''B'', ''urlB'']]"
  by (simp add: code_blocks_def blocks_by_def file_lines_def rstrip_nl_def SEP_def)

lemma spec_blocks_example:
  "spec_blocks ''---\<newline>A\<newline>urlA\<newline>---\<newline>B\<newline>urlB\<newline>'' = [[''A'', ''urlA''], [''B'', ''urlB'']]"
  by (simp add: spec_blocks_def blocks_by_def file_lines_def rstrip_nl_def SEP_def
        spec_boundary_def)

lemma shown_example:
  "filter (list_ex (plain_pattern ''a''))
     (code_blocks ''---\<newline>A\<newline>urlA\<newline>---\<newline>B\<newline>urlB\<newline>'') = [[''A'', ''urlA'']]"
  by (simp add: code_blocks_example plain_pattern_def ascii_lower_def sublist_Cons_right)

lemma kept_example:
  "filter (\<lambda>b. \<not> list_ex (plain_pattern ''a'') b)
     (code_blocks ''---\<newline>A\<newline>urlA\<newline>---\<newline>B\<newline>urlB\<newline>'') = [[''B'', ''urlB'']]"
  by (simp add: code_blocks_example plain_pattern_def ascii_lower_def sublist_Cons_right)

lemma lines_example:
  "\<forall>l \<in> set (file_lines ''---\<newline>A\<newline>urlA\<newline>---\<newline>B\<newline>urlB\<newline>''). prefix SEP l \<longrightarrow> l = SEP"
  by (simp add: file_lines_def rstrip_nl_def SEP_def)

theorem show_delete_partition_witness:
  "snd (show_blocks (single_file ''f'' ''---\<newline>A\<newline>urlA\<newline>---\<newline>B\<newline>urlB\<newline>'') [] ''f''
          (plain_pattern ''a'') None) = None
   \<and> spec_blocks (concat (fst (show_blocks
         (single_file ''f'' ''---\<newline>A\<newline>urlA\<newline>---\<newline>B\<newline>urlB\<newline>'') [] ''f''
         (plain_pattern ''a'') None)))
     = [[''A'', ''urlA'']]
   \<and> snd (drop_blocks held_until_close
         (single_file ''f'' ''---\<newline>A\<newline>urlA\<newline>---\<newline>B\<newline>urlB\<newline>'') ''f''
         (plain_pattern ''a'') None) = None
   \<and> map_option spec_blocks (read_path (last (fst (drop_blocks held_until_close
         (single_file ''f'' ''---\<newline>A\<newline>urlA\<newline>---\<newline>B\<newline>urlB\<newline>'') ''f''
         (plain_pattern ''a'') None))) ''f'')
     = Some [[''B'', ''urlB'']]
   \<and> code_blocks ''---\<newline>A\<newline>urlA\<newline>---\<newline>B\<newline>urlB\<newline>''
     = spec_blocks ''---\<newline>A\<newline>urlA\<newline>---\<newline>B\<newline>urlB\<newline>''
   \<and> spec_blocks ''---\<newline>A\<newline>urlA\<newline>---\<newline>B\<newline>urlB\<newline>''
     = [[''A'', ''urlA''], [''B'', ''urlB'']]"
proof -
  let ?c = "''---\<newline>A\<newline>urlA\<newline>---\<newline>B\<newline>urlB\<newline>''"
  let ?s = "show_blocks (single_file ''f'' ?c) [] ''f'' (plain_pattern ''a'') None"
  let ?d = "drop_blocks held_until_close (single_file ''f'' ?c) ''f'' (plain_pattern ''a'') None"
  have n: "''f'' \<noteq> ''-''" by simp
  have ps: "?s = (fst ?s, snd ?s)" and pd: "?d = (fst ?d, snd ?d)" by simp_all
  note t = show_delete_partition [OF single_file_names single_file_inodes single_file_fresh
      n ps pd]
  from t obtain c' where c': "read_path (last (fst ?d)) ''f'' = Some c'"
    and s: "spec_blocks (concat (fst ?s)) = filter (list_ex (plain_pattern ''a'')) (code_blocks ?c)"
    and k: "spec_blocks c' = filter (\<lambda>b. \<not> list_ex (plain_pattern ''a'') b) (code_blocks ?c)"
    by auto
  from t lines_example have e: "code_blocks ?c = spec_blocks ?c"
    by simp
  have s': "spec_blocks (concat (fst ?s)) = [[''A'', ''urlA'']]"
    using s by (simp only: shown_example)
  have "spec_blocks c' = [[''B'', ''urlB'']]"
    using k by (simp only: kept_example)
  then have k': "map_option spec_blocks (read_path (last (fst ?d)) ''f'') = Some [[''B'', ''urlB'']]"
    by (simp add: c')
  from t have r: "snd ?s = None" "snd ?d = None"
    by simp_all
  show ?thesis
    by (intro conjI r s' k' e spec_blocks_example)
qed

text \<open>
  C5 (as stated) fails for the blocks of the specification, which are cut at the lines equal
  to the token. The file of this run has one such block, with the lines \<open>A\<close>, \<open>---x\<close> and \<open>B\<close>,
  and the pattern \<open>x\<close> matches its second line. \<open>--show\<close> prints nothing, and \<open>--delete\<close>
  leaves a file with the two blocks \<open>A\<close> and \<open>B\<close>: the block of the file is in neither
  output.
\<close>

theorem show_delete_partition_counterexample:
  "spec_blocks ''---\<newline>A\<newline>---x\<newline>B\<newline>'' = [[''A'', ''---x'', ''B'']]
   \<and> list_ex (plain_pattern ''x'') [''A'', ''---x'', ''B'']
   \<and> show_blocks (single_file ''f'' ''---\<newline>A\<newline>---x\<newline>B\<newline>'') [] ''f''
        (plain_pattern ''x'') None = ([], None)
   \<and> read_path (last (fst (drop_blocks held_until_close
        (single_file ''f'' ''---\<newline>A\<newline>---x\<newline>B\<newline>'') ''f'' (plain_pattern ''x'') None))) ''f''
     = Some ''---\<newline>---\<newline>A\<newline>---\<newline>B\<newline>''
   \<and> spec_blocks ''---\<newline>---\<newline>A\<newline>---\<newline>B\<newline>'' = [[''A''], [''B'']]"
proof -
  let ?c = "''---\<newline>A\<newline>---x\<newline>B\<newline>''"
  let ?r = "inplace held_until_close (single_file ''f'' ?c) ''f'' ''r''
      (drop_body (plain_pattern ''x'') None)"
  have b: "drop_body (plain_pattern ''x'') None (translate_nl (content \<lparr>perm = 420, content = ?c\<rparr>))
     = ([''---'', [LF], ''---'', [LF], ''A'', [LF], ''---'', [LF], ''B'', [LF]], None)"
    by (simp add: drop_body_def drop_text_def plain_pattern_def ascii_lower_def rstrip_nl_def
          SEP_def flush_block_def Let_def sublist_Cons_right)
  have pr: "?r = (fst ?r, snd ?r)" by simp
  note f = inplace_success [where body = "drop_body (plain_pattern ''x'') None",
      OF single_file_names single_file_inodes single_file_fresh mode_r b pr]
  have d: "read_path (last (fst (drop_blocks held_until_close (single_file ''f'' ?c) ''f''
      (plain_pattern ''x'') None))) ''f'' = Some ''---\<newline>---\<newline>A\<newline>---\<newline>B\<newline>''"
    unfolding drop_blocks_def using f(4) by simp
  have s: "show_blocks (single_file ''f'' ?c) [] ''f'' (plain_pattern ''x'') None = ([], None)"
    by (simp add: show_blocks_def show_body_def show_text_def read_path_def single_file_def
          plain_pattern_def ascii_lower_def rstrip_nl_def SEP_def flush_block_def Let_def
          sublist_Cons_right)
  have 1: "spec_blocks ?c = [[''A'', ''---x'', ''B'']]"
    by (simp add: spec_blocks_def blocks_by_def file_lines_def rstrip_nl_def SEP_def
          spec_boundary_def)
  have 2: "list_ex (plain_pattern ''x'') [''A'', ''---x'', ''B'']"
    by (simp add: plain_pattern_def ascii_lower_def sublist_Cons_right)
  have 3: "spec_blocks ''---\<newline>---\<newline>A\<newline>---\<newline>B\<newline>'' = [[''A''], [''B'']]"
    by (simp add: spec_blocks_def blocks_by_def file_lines_def rstrip_nl_def SEP_def
          spec_boundary_def)
  show ?thesis
    using 1 2 3 s d by simp
qed

section \<open>Properties of the aggregator\<close>

subsection \<open>The subject patterns\<close>

lemma strip_prefix_append: "strip_prefix xs (xs @ ys) = Some ys"
  by (induction xs) auto

lemma strip_prefix_Some: "strip_prefix xs ys = Some zs \<Longrightarrow> ys = xs @ zs"
  by (induction xs ys rule: strip_prefix.induct) (auto split: if_splits)

lemma rx_match_iff:
  assumes "sfx \<noteq> []" and "last sfx \<noteq> LF"
  shows "rx_match sfx s = Some g
     \<longleftrightarrow> LF \<notin> set g \<and> (s = g @ sfx \<or> s = g @ sfx @ [LF])"
proof
  assume m: "rx_match sfx s = Some g"
  define body where "body = (case rev s of [] \<Rightarrow> rev s | c # cs \<Rightarrow> if c = LF then cs else rev s)"
  from m obtain r where r: "strip_prefix (rev sfx) body = Some r" and g: "g = rev r" and nl: "LF \<notin> set r"
    by (auto simp: rx_match_def body_def Let_def split: option.splits if_splits)
  from strip_prefix_Some [OF r] have b: "body = rev sfx @ r" .
  have "rev s = body \<or> rev s = LF # body"
    by (auto simp: body_def split: list.splits)
  then have "s = rev body \<or> s = rev body @ [LF]"
    by (metis rev_rev_ident rev.simps(2))
  then show "LF \<notin> set g \<and> (s = g @ sfx \<or> s = g @ sfx @ [LF])"
    using b g nl by auto
next
  assume a: "LF \<notin> set g \<and> (s = g @ sfx \<or> s = g @ sfx @ [LF])"
  have hd: "hd (rev sfx @ rev g) \<noteq> LF" "rev sfx @ rev g \<noteq> []"
    using assms by (simp_all add: hd_rev)
  from a have "rev s = rev sfx @ rev g \<or> rev s = LF # rev sfx @ rev g"
    by auto
  then have "(case rev s of [] \<Rightarrow> rev s | c # cs \<Rightarrow> if c = LF then cs else rev s) = rev sfx @ rev g"
  proof
    assume e: "rev s = rev sfx @ rev g"
    show ?thesis
      unfolding e using hd by (cases "rev sfx @ rev g") auto
  next
    assume e: "rev s = LF # rev sfx @ rev g"
    show ?thesis
      unfolding e by simp
  qed
  then show "rx_match sfx s = Some g"
    using a by (simp add: rx_match_def Let_def strip_prefix_append)
qed

lemma sfx_ok:
  "author_sfx \<noteq> [] \<and> last author_sfx \<noteq> LF"
  "citing_sfx \<noteq> [] \<and> last citing_sfx \<noteq> LF"
  "related_sfx \<noteq> [] \<and> last related_sfx \<noteq> LF"
  by (simp_all add: author_sfx_def citing_sfx_def related_sfx_def)

lemma rx_match_suffix: "LF \<notin> set g \<Longrightarrow> sfx \<noteq> [] \<Longrightarrow> last sfx \<noteq> LF \<Longrightarrow> rx_match sfx (g @ sfx) = Some g"
  using rx_match_iff [of sfx "g @ sfx" g] by simp

text \<open>Two suffixes with different last characters never both match.\<close>

lemma rx_match_exclusive:
  assumes "rx_match sfx1 s = Some g1" and "sfx1 \<noteq> []" and "sfx2 \<noteq> []" and "last sfx1 \<noteq> last sfx2"
  shows "rx_match sfx2 s = None"
proof -
  define body where "body = (case rev s of [] \<Rightarrow> rev s | c # cs \<Rightarrow> if c = LF then cs else rev s)"
  from assms(1) obtain r where "strip_prefix (rev sfx1) body = Some r"
    by (auto simp: rx_match_def body_def Let_def split: option.splits if_splits)
  then have b1: "body = rev sfx1 @ r" by (rule strip_prefix_Some)
  have "strip_prefix (rev sfx2) body = None"
  proof (cases "strip_prefix (rev sfx2) body")
    case None
    then show ?thesis .
  next
    case (Some r2)
    then have "body = rev sfx2 @ r2" by (rule strip_prefix_Some)
    with b1 have "hd (rev sfx1 @ r) = hd (rev sfx2 @ r2)" by simp
    then have "last sfx1 = last sfx2"
      using assms(2) assms(3) by (simp add: hd_rev)
    with assms(4) show ?thesis by simp
  qed
  then show ?thesis
    by (simp add: rx_match_def body_def Let_def)
qed

lemma last_sfx:
  "last author_sfx = CHR ''s''" "last citing_sfx = CHR ''s''" "last related_sfx = CHR ''h''"
  by (simp_all add: author_sfx_def citing_sfx_def related_sfx_def)

lemma citing_not_related: "rx_match citing_sfx s = Some g \<Longrightarrow> rx_match related_sfx s = None"
  using rx_match_exclusive [of citing_sfx s g related_sfx] sfx_ok last_sfx by simp

lemma cross_none:
  "rx_match author_sfx (g @ citing_sfx) = None"
  "rx_match author_sfx (g @ related_sfx) = None"
  "rx_match related_sfx (g @ citing_sfx) = None"
  "rx_match citing_sfx (g @ related_sfx) = None"
  by (simp_all add: rx_match_def author_sfx_def citing_sfx_def related_sfx_def)

lemma author_exclusive:
  assumes "rx_match author_sfx s = Some g"
  shows "rx_match citing_sfx s = None \<and> rx_match related_sfx s = None"
proof -
  have "s = g @ author_sfx \<or> s = g @ author_sfx @ [LF]"
    using assms rx_match_iff [of author_sfx s g] sfx_ok by simp
  then show ?thesis
    by (auto simp: rx_match_def author_sfx_def citing_sfx_def related_sfx_def)
qed

lemma cross_none_nl:
  "rx_match citing_sfx (g @ author_sfx) = None"
  "rx_match related_sfx (g @ author_sfx) = None"
  "rx_match citing_sfx (g @ author_sfx @ [LF]) = None"
  "rx_match related_sfx (g @ author_sfx @ [LF]) = None"
  "rx_match author_sfx (g @ citing_sfx @ [LF]) = None"
  "rx_match related_sfx (g @ citing_sfx @ [LF]) = None"
  "rx_match author_sfx (g @ related_sfx @ [LF]) = None"
  "rx_match citing_sfx (g @ related_sfx @ [LF]) = None"
  by (simp_all add: rx_match_def author_sfx_def citing_sfx_def related_sfx_def)

lemma rx_match_suffix_nl:
  "LF \<notin> set g \<Longrightarrow> sfx \<noteq> [] \<Longrightarrow> last sfx \<noteq> LF \<Longrightarrow> rx_match sfx (g @ sfx @ [LF]) = Some g"
  using rx_match_iff [of sfx "g @ sfx @ [LF]" g] by simp

lemma newline_prefix_none:
  assumes "LF \<in> set h" and "sfx \<noteq> []" and "last sfx \<noteq> LF"
  shows "rx_match sfx (h @ sfx) = None" and "rx_match sfx (h @ sfx @ [LF]) = None"
proof -
  have 1: "rx_match sfx (h @ sfx) \<noteq> Some g" for g
  proof
    assume "rx_match sfx (h @ sfx) = Some g"
    then have g: "LF \<notin> set g" and d: "h @ sfx = g @ sfx \<or> h @ sfx = g @ sfx @ [LF]"
      using rx_match_iff [OF assms(2) assms(3), of "h @ sfx" g] by simp_all
    from d show False
    proof
      assume "h @ sfx = g @ sfx"
      then show False using assms(1) g by simp
    next
      assume "h @ sfx = g @ sfx @ [LF]"
      then have "last (h @ sfx) = last (g @ sfx @ [LF])" by simp
      then show False using assms(2) assms(3) by simp
    qed
  qed
  have 2: "rx_match sfx (h @ sfx @ [LF]) \<noteq> Some g" for g
  proof
    assume "rx_match sfx (h @ sfx @ [LF]) = Some g"
    then have g: "LF \<notin> set g"
      and d: "h @ sfx @ [LF] = g @ sfx \<or> h @ sfx @ [LF] = g @ sfx @ [LF]"
      using rx_match_iff [OF assms(2) assms(3), of "h @ sfx @ [LF]" g] by simp_all
    from d show False
    proof
      assume "h @ sfx @ [LF] = g @ sfx"
      then have "last (h @ sfx @ [LF]) = last (g @ sfx)" by simp
      then show False using assms(2) assms(3) by simp
    next
      assume "h @ sfx @ [LF] = g @ sfx @ [LF]"
      then show False using assms(1) g by simp
    qed
  qed
  show "rx_match sfx (h @ sfx) = None"
    using 1 by (cases "rx_match sfx (h @ sfx)") auto
  show "rx_match sfx (h @ sfx @ [LF]) = None"
    using 2 by (cases "rx_match sfx (h @ sfx @ [LF])") auto
qed

lemma note_subject_none:
  "rx_match author_sfx s = None \<Longrightarrow> rx_match citing_sfx s = None
     \<Longrightarrow> rx_match related_sfx s = None \<Longrightarrow> note_subject p s = p"
  by (simp add: note_subject_def)

text \<open>
  C9 (as amended). A subject matches a pattern exactly when it is a prefix without a line
  feed followed by the suffix of the pattern, with at most one line feed after the suffix; the
  prefix is then the captured name. No subject matches two of the three patterns. A subject
  made of a prefix without a line feed and the suffix \<open> - new articles\<close> adds the prefix to
  the author set; with \<open> - new citations\<close>, to the citing set; with
  \<open> - new related research\<close>, to the related set; and so it does with one line feed after the
  suffix. A subject whose prefix holds a line feed changes nothing, although it ends with the
  suffix. A subject that matches none of the three patterns changes nothing. Every call
  either adds one name to exactly one of the three sets or leaves the record as it is.
\<close>

theorem note_subject_classifies:
  "(rx_match author_sfx s = Some n \<longleftrightarrow> LF \<notin> set n \<and> (s = n @ author_sfx \<or> s = n @ author_sfx @ [LF]))
   \<and> (rx_match citing_sfx s = Some n \<longleftrightarrow> LF \<notin> set n \<and> (s = n @ citing_sfx \<or> s = n @ citing_sfx @ [LF]))
   \<and> (rx_match related_sfx s = Some n
        \<longleftrightarrow> LF \<notin> set n \<and> (s = n @ related_sfx \<or> s = n @ related_sfx @ [LF]))
   \<and> (rx_match author_sfx s = None
        \<or> (rx_match citing_sfx s = None \<and> rx_match related_sfx s = None))
   \<and> (rx_match citing_sfx s = None \<or> rx_match related_sfx s = None)
   \<and> (LF \<notin> set g \<longrightarrow>
        note_subject p (g @ author_sfx) = p\<lparr>author := insert g (author p)\<rparr>
        \<and> note_subject p (g @ citing_sfx) = p\<lparr>citing := insert g (citing p)\<rparr>
        \<and> note_subject p (g @ related_sfx) = p\<lparr>related := insert g (related p)\<rparr>
        \<and> note_subject p (g @ author_sfx @ [LF]) = p\<lparr>author := insert g (author p)\<rparr>
        \<and> note_subject p (g @ citing_sfx @ [LF]) = p\<lparr>citing := insert g (citing p)\<rparr>
        \<and> note_subject p (g @ related_sfx @ [LF]) = p\<lparr>related := insert g (related p)\<rparr>)
   \<and> (LF \<in> set h \<longrightarrow>
        note_subject p (h @ author_sfx) = p
        \<and> note_subject p (h @ citing_sfx) = p
        \<and> note_subject p (h @ related_sfx) = p
        \<and> note_subject p (h @ author_sfx @ [LF]) = p
        \<and> note_subject p (h @ citing_sfx @ [LF]) = p
        \<and> note_subject p (h @ related_sfx @ [LF]) = p)
   \<and> (rx_match author_sfx s = None \<and> rx_match citing_sfx s = None
        \<and> rx_match related_sfx s = None \<longrightarrow> note_subject p s = p)
   \<and> ((\<exists>a. note_subject p s = p\<lparr>author := insert a (author p)\<rparr>)
        \<or> (\<exists>c. note_subject p s = p\<lparr>citing := insert c (citing p)\<rparr>)
        \<or> (\<exists>r. note_subject p s = p\<lparr>related := insert r (related p)\<rparr>)
        \<or> note_subject p s = p)"
proof (intro conjI impI)
  show "rx_match author_sfx s = Some n
      \<longleftrightarrow> LF \<notin> set n \<and> (s = n @ author_sfx \<or> s = n @ author_sfx @ [LF])"
    using sfx_ok(1) by (intro rx_match_iff) simp_all
  show "rx_match citing_sfx s = Some n
      \<longleftrightarrow> LF \<notin> set n \<and> (s = n @ citing_sfx \<or> s = n @ citing_sfx @ [LF])"
    using sfx_ok(2) by (intro rx_match_iff) simp_all
  show "rx_match related_sfx s = Some n
      \<longleftrightarrow> LF \<notin> set n \<and> (s = n @ related_sfx \<or> s = n @ related_sfx @ [LF])"
    using sfx_ok(3) by (intro rx_match_iff) simp_all
  show "rx_match author_sfx s = None
      \<or> (rx_match citing_sfx s = None \<and> rx_match related_sfx s = None)"
    using author_exclusive [of s] by (cases "rx_match author_sfx s") simp_all
  show "rx_match citing_sfx s = None \<or> rx_match related_sfx s = None"
    using citing_not_related [of s] by (cases "rx_match citing_sfx s") simp_all
next
  assume g: "LF \<notin> set g"
  show "note_subject p (g @ author_sfx) = p\<lparr>author := insert g (author p)\<rparr>"
    using rx_match_suffix [OF g, of author_sfx] sfx_ok by (simp add: note_subject_def)
  show "note_subject p (g @ citing_sfx) = p\<lparr>citing := insert g (citing p)\<rparr>"
    using rx_match_suffix [OF g, of citing_sfx] sfx_ok cross_none by (simp add: note_subject_def)
  show "note_subject p (g @ related_sfx) = p\<lparr>related := insert g (related p)\<rparr>"
    using rx_match_suffix [OF g, of related_sfx] sfx_ok cross_none by (simp add: note_subject_def)
  show "note_subject p (g @ author_sfx @ [LF]) = p\<lparr>author := insert g (author p)\<rparr>"
    using rx_match_suffix_nl [OF g, of author_sfx] sfx_ok by (simp add: note_subject_def)
  show "note_subject p (g @ citing_sfx @ [LF]) = p\<lparr>citing := insert g (citing p)\<rparr>"
    using rx_match_suffix_nl [OF g, of citing_sfx] sfx_ok cross_none_nl
    by (simp add: note_subject_def)
  show "note_subject p (g @ related_sfx @ [LF]) = p\<lparr>related := insert g (related p)\<rparr>"
    using rx_match_suffix_nl [OF g, of related_sfx] sfx_ok cross_none_nl
    by (simp add: note_subject_def)
next
  assume h: "LF \<in> set h"
  note n = newline_prefix_none [OF h]
  show "note_subject p (h @ author_sfx) = p"
    using n(1) [of author_sfx] sfx_ok cross_none_nl by (intro note_subject_none) simp_all
  show "note_subject p (h @ citing_sfx) = p"
    using n(1) [of citing_sfx] sfx_ok cross_none by (intro note_subject_none) simp_all
  show "note_subject p (h @ related_sfx) = p"
    using n(1) [of related_sfx] sfx_ok cross_none by (intro note_subject_none) simp_all
  show "note_subject p (h @ author_sfx @ [LF]) = p"
    using n(2) [of author_sfx] sfx_ok cross_none_nl by (intro note_subject_none) simp_all
  show "note_subject p (h @ citing_sfx @ [LF]) = p"
    using n(2) [of citing_sfx] sfx_ok cross_none_nl by (intro note_subject_none) simp_all
  show "note_subject p (h @ related_sfx @ [LF]) = p"
    using n(2) [of related_sfx] sfx_ok cross_none_nl by (intro note_subject_none) simp_all
next
  assume "rx_match author_sfx s = None \<and> rx_match citing_sfx s = None
        \<and> rx_match related_sfx s = None"
  then show "note_subject p s = p" by (simp add: note_subject_def)
next
  show "(\<exists>a. note_subject p s = p\<lparr>author := insert a (author p)\<rparr>)
        \<or> (\<exists>c. note_subject p s = p\<lparr>citing := insert c (citing p)\<rparr>)
        \<or> (\<exists>r. note_subject p s = p\<lparr>related := insert r (related p)\<rparr>)
        \<or> note_subject p s = p"
    using citing_not_related [of s]
    by (auto simp: note_subject_def Let_def split: option.splits)
qed

theorem note_subject_classifies_witness:
  "note_subject (Paper ''u'' ''d'') ''Ann - new articles''
     = \<lparr>url = ''u'', desc = ''d'', author = {''Ann''}, citing = {}, related = {}\<rparr>
   \<and> note_subject (Paper ''u'' ''d'') ''Ann - new citations''
     = \<lparr>url = ''u'', desc = ''d'', author = {}, citing = {''Ann''}, related = {}\<rparr>
   \<and> note_subject (Paper ''u'' ''d'') ''Ann - new related research''
     = \<lparr>url = ''u'', desc = ''d'', author = {}, citing = {}, related = {''Ann''}\<rparr>
   \<and> note_subject (Paper ''u'' ''d'') ''Ann - new citations\<newline>''
     = \<lparr>url = ''u'', desc = ''d'', author = {}, citing = {''Ann''}, related = {}\<rparr>
   \<and> note_subject (Paper ''u'' ''d'') ''a\<newline>b - new articles'' = Paper ''u'' ''d''
   \<and> note_subject (Paper ''u'' ''d'') ''a\<newline>b - new related research\<newline>'' = Paper ''u'' ''d''
   \<and> note_subject (Paper ''u'' ''d'') ''Ann'' = Paper ''u'' ''d''"
proof -
  have n: "rx_match author_sfx ''Ann'' = None \<and> rx_match citing_sfx ''Ann'' = None
        \<and> rx_match related_sfx ''Ann'' = None"
    by (simp add: rx_match_def author_sfx_def citing_sfx_def related_sfx_def)
  have g: "LF \<notin> set ''Ann''" and h: "LF \<in> set ''a\<newline>b''" by simp_all
  show ?thesis
    using note_subject_classifies [of "''Ann''" "''Ann''" "''Ann''" "Paper ''u'' ''d''" "''a\<newline>b''"]
      n g h
    by (simp add: Paper_def author_sfx_def citing_sfx_def related_sfx_def)
qed

text \<open>
  C9 (as stated) fails for a subject whose prefix holds a line feed: it ends with
  \<open> - new articles\<close>, but \<open>.*\<close> does not cross the line feed, no pattern matches, and the
  record is unchanged.
\<close>

theorem note_subject_newline_counterexample:
  "suffix '' - new articles'' ''a\<newline>b - new articles''
   \<and> note_subject (Paper ''u'' ''d'') ''a\<newline>b - new articles'' = Paper ''u'' ''d''"
  by (simp add: suffix_def note_subject_def rx_match_def author_sfx_def citing_sfx_def
        related_sfx_def Paper_def)

subsection \<open>One record per URL, first description kept\<close>

lemma note_subject_desc: "desc (note_subject p s) = desc p"
  by (simp add: note_subject_def Let_def split: option.splits)

lemma note_subject_url: "url (note_subject p s) = url p"
  by (simp add: note_subject_def Let_def split: option.splits)

lemma map_of_update:
  "map_of (map (\<lambda>(k, p). if k = u then (k, f p) else (k, p)) ps) k'
     = (if k' = u then map_option f (map_of ps k') else map_of ps k')"
  by (induction ps) auto

lemma keys_update: "map fst (map (\<lambda>(k, p). if k = u then (k, f p) else (k, p)) ps) = map fst ps"
  by (induction ps) auto

lemma map_of_snoc_new:
  "map_of ps u = None \<Longrightarrow> map_of (ps @ [(u, v)]) k = (if k = u then Some v else map_of ps k)"
  by (induction ps) (auto split: if_splits)

lemma inv_update:
  assumes "inv_papers ps"
  shows "inv_papers (map (\<lambda>(k, p). if k = u then (k, note_subject p s) else (k, p)) ps)"
proof -
  have u: "map (\<lambda>kp. url (snd kp))
          (map (\<lambda>(k, p). if k = u then (k, note_subject p s) else (k, p)) ps)
      = map (\<lambda>kp. url (snd kp)) ps"
    by (induction ps) (auto simp: note_subject_url)
  have k: "map fst (map (\<lambda>(k, p). if k = u then (k, note_subject p s) else (k, p)) ps)
      = map fst ps"
    by (rule keys_update)
  from assms show ?thesis
    unfolding inv_papers_def u k .
qed

lemma inv_snoc: "inv_papers ps \<Longrightarrow> map_of ps u = None \<Longrightarrow> inv_papers (ps @ [(u, Paper u d)])"
  by (auto simp: inv_papers_def Paper_def map_of_eq_None_iff)

lemma inv_handle_data: "inv_papers (papers s) \<Longrightarrow> inv_papers (papers (handle_data s d))"
  by (auto simp: handle_data_def Let_def inv_update inv_snoc split: option.splits)

lemma inv_handle: "inv_papers (papers s) \<Longrightarrow> inv_papers (papers (handle q s e))"
  by (cases e) (auto simp: handle_starttag_def handle_endtag_def Let_def inv_handle_data
      split: option.splits)

lemma inv_feed: "inv_papers (papers s) \<Longrightarrow> inv_papers (papers (feed q s es))"
  by (induction es arbitrary: s) (auto simp: inv_handle)

lemma inv_run: "inv_papers (papers s) \<Longrightarrow> inv_papers (papers (run q s ps))"
  by (induction ps arbitrary: s) (auto simp: inv_feed set_subject_def)

lemma inv_init: "inv_papers (papers ScholarScraper)"
  by (simp add: inv_papers_def ScholarScraper_def)

lemma desc_of_handle_data:
  "desc_of (handle_data s d) u
     = (case pending_url s of
          None \<Rightarrow> desc_of s u
        | Some v \<Rightarrow> if u = v \<and> desc_of s v = None then Some d else desc_of s u)"
  by (auto simp: desc_of_def handle_data_def Let_def map_of_update map_add_def
        note_subject_desc Paper_def option.map_comp comp_def
      split: option.splits)

lemma desc_of_handle_tag:
  "desc_of (handle_starttag q s tag attrs) u = desc_of s u"
  "desc_of (handle_endtag s tag) u = desc_of s u"
  by (auto simp: desc_of_def handle_starttag_def handle_endtag_def Let_def split: option.splits)

lemma desc_of_feed:
  "desc_of (feed q s es) u
     = (case desc_of s u of Some d \<Rightarrow> Some d | None \<Rightarrow> map_of (feed_log q s es) u)"
proof (induction es arbitrary: s)
  case Nil
  show ?case by (simp split: option.splits)
next
  case (Cons e es)
  show ?case
  proof (cases e)
    case (StartTag tag attrs)
    show ?thesis
      unfolding StartTag using Cons.IH [of "handle_starttag q s tag attrs"]
      by (simp add: desc_of_handle_tag split: option.splits)
  next
    case (EndTag tag)
    show ?thesis
      unfolding EndTag using Cons.IH [of "handle_endtag s tag"]
      by (simp add: desc_of_handle_tag split: option.splits)
  next
    case (Data d)
    show ?thesis
      unfolding Data using Cons.IH [of "handle_data s d"]
      by (auto simp: desc_of_handle_data split: option.splits)
  qed
qed

lemma desc_of_set_subject: "desc_of (set_subject s subj) u = desc_of s u"
  by (simp add: desc_of_def set_subject_def)

lemma map_of_append_first:
  "map_of (xs @ ys) u = (case map_of xs u of Some d \<Rightarrow> Some d | None \<Rightarrow> map_of ys u)"
  by (induction xs) auto

lemma desc_of_run:
  "desc_of (run q s ps) u
     = (case desc_of s u of Some d \<Rightarrow> Some d | None \<Rightarrow> map_of (run_log q s ps) u)"
proof (induction ps arbitrary: s)
  case Nil
  show ?case by (simp split: option.splits)
next
  case (Cons a ps)
  obtain subj evs where a: "a = (subj, evs)" by (cases a)
  have f: "desc_of (feed q (set_subject s subj) evs) u
      = (case desc_of s u of
           Some d \<Rightarrow> Some d
         | None \<Rightarrow> map_of (feed_log q (set_subject s subj) evs) u)"
    by (simp add: desc_of_feed desc_of_set_subject)
  show ?case
    unfolding a run.simps run_log.simps Cons.IH f map_of_append_first
    by (simp split: option.splits)
qed

lemma run_append: "run q s (ps @ ps') = run q (run q s ps) ps'"
  by (induction ps arbitrary: s) auto

lemma desc_of_init: "desc_of ScholarScraper u = None"
  by (simp add: desc_of_def ScholarScraper_def)

lemma keys_dom: "set (map fst (papers s)) = {u. desc_of s u \<noteq> None}"
  by (auto simp: desc_of_def map_of_eq_None_iff)

subsection \<open>The records and the observations in the input\<close>

lemma attr_value_snoc:
  "attr_value name (attrs @ [a])
     = (if fst a = name then Some (snd a) else attr_value name attrs)"
  by (simp add: attr_value_def)

lemma map_of_rev_attrs: "map_of (rev attrs) name = attr_value name attrs"
proof (induction attrs rule: rev_induct)
  case Nil
  show ?case by (simp add: attr_value_def)
next
  case (snoc a attrs)
  show ?case
    unfolding attr_value_snoc using snoc by (cases a) auto
qed

lemma handle_starttag_link:
  "handle_starttag q s tag attrs
     = (case link_url q tag attrs of None \<Rightarrow> s | Some u \<Rightarrow> s\<lparr>pending_url := Some u\<rparr>)"
  by (simp add: handle_starttag_def link_url_def map_of_rev_attrs Let_def)

lemma first_occurrences_snoc:
  "first_occurrences (xs @ [x])
     = (if x \<in> set xs then first_occurrences xs else first_occurrences xs @ [x])"
  by (simp add: first_occurrences_def)

lemma first_occurrences_set: "set (first_occurrences xs) = set xs"
  by (simp add: first_occurrences_def)

lemma observed_snoc:
  "observed q (es @ [e])
     = observed q es
       @ (case e of
            Data d \<Rightarrow> (case last_link q (rev es) of None \<Rightarrow> [] | Some u \<Rightarrow> [(u, d)])
          | _ \<Rightarrow> [])"
  by (simp add: observed_def)

lemma keys_handle_data:
  "map fst (papers (handle_data s d))
     = (case pending_url s of
          None \<Rightarrow> map fst (papers s)
        | Some u \<Rightarrow> if u \<in> set (map fst (papers s)) then map fst (papers s)
                    else map fst (papers s) @ [u])"
proof (cases "pending_url s")
  case None
  then show ?thesis by (simp add: handle_data_def)
next
  case (Some u)
  show ?thesis
  proof (cases "map_of (papers s) u")
    case None
    then have "u \<notin> set (map fst (papers s))"
      by (simp add: map_of_eq_None_iff)
    then show ?thesis
      using Some None
      by (auto simp: handle_data_def Let_def keys_update split: option.splits prod.splits)
  next
    case (Some p)
    then have "u \<in> set (map fst (papers s))"
      by (metis map_of_eq_None_iff option.distinct(1) set_map)
    then show ?thesis
      using \<open>pending_url s = Some u\<close> Some
      by (auto simp: handle_data_def Let_def keys_update split: option.splits prod.splits)
  qed
qed

lemma pending_handle_data: "pending_url (handle_data s d) = pending_url s"
  by (simp add: handle_data_def Let_def split: option.splits)

text \<open>
  Along a run the pending URL is the one the events so far show, the keys of the dictionary
  are the URLs observed so far in the order of their first observations, and the calls of
  \<open>handle_data\<close> that found a pending URL are the observations.
\<close>

lemma handle_agrees:
  assumes "pending_url s = last_link q (rev before)"
    and "map fst (papers s) = first_occurrences (map fst (observed q before))"
  shows "pending_url (handle q s e) = last_link q (rev (before @ [e]))
    \<and> map fst (papers (handle q s e)) = first_occurrences (map fst (observed q (before @ [e])))
    \<and> observed q (before @ [e]) = observed q before @ feed_log q s [e]"
proof (cases e)
  case (StartTag tag attrs)
  show ?thesis
    using assms
    by (simp add: StartTag handle_starttag_link observed_snoc split: option.splits)
next
  case (EndTag tag)
  show ?thesis
    using assms by (simp add: EndTag handle_endtag_def observed_snoc)
next
  case (Data d)
  show ?thesis
    using assms
    by (simp add: Data pending_handle_data keys_handle_data observed_snoc
          first_occurrences_snoc first_occurrences_set split: option.splits)
qed

lemma feed_agrees:
  assumes "pending_url s = last_link q (rev before)"
    and "map fst (papers s) = first_occurrences (map fst (observed q before))"
  shows "pending_url (feed q s es) = last_link q (rev (before @ es))
    \<and> map fst (papers (feed q s es)) = first_occurrences (map fst (observed q (before @ es)))
    \<and> observed q (before @ es) = observed q before @ feed_log q s es"
  using assms
proof (induction es arbitrary: s before)
  case Nil
  then show ?case by simp
next
  case (Cons e es)
  note h = handle_agrees [OF Cons.prems, of e]
  note ih = Cons.IH [OF h [THEN conjunct1] h [THEN conjunct2, THEN conjunct1]]
  have l: "feed_log q s (e # es) = feed_log q s [e] @ feed_log q (handle q s e) es"
    by simp
  show ?case
    using ih h [THEN conjunct2, THEN conjunct2] unfolding l by simp
qed

lemma run_agrees:
  assumes "pending_url s = last_link q (rev before)"
    and "map fst (papers s) = first_occurrences (map fst (observed q before))"
  shows "pending_url (run q s ps) = last_link q (rev (before @ events_of ps))
    \<and> map fst (papers (run q s ps))
        = first_occurrences (map fst (observed q (before @ events_of ps)))
    \<and> observed q (before @ events_of ps) = observed q before @ run_log q s ps"
  using assms
proof (induction ps arbitrary: s before)
  case Nil
  then show ?case by (simp add: events_of_def)
next
  case (Cons a ps)
  obtain subj es where a: "a = (subj, es)" by (cases a)
  have p: "pending_url (set_subject s subj) = last_link q (rev before)"
    and k: "map fst (papers (set_subject s subj)) = first_occurrences (map fst (observed q before))"
    using Cons.prems by (simp_all add: set_subject_def)
  note f = feed_agrees [OF p k, of es]
  note ih = Cons.IH [OF f [THEN conjunct1] f [THEN conjunct2, THEN conjunct1]]
  have e: "events_of ((subj, es) # ps) = es @ events_of ps"
    by (simp add: events_of_def)
  show ?case
    unfolding a e using ih f [THEN conjunct2, THEN conjunct2] by simp
qed

lemma run_observed:
  "map fst (papers (run q ScholarScraper ps))
     = first_occurrences (map fst (observed q (events_of ps)))"
  "run_log q ScholarScraper ps = observed q (events_of ps)"
proof -
  have p: "pending_url ScholarScraper = last_link q (rev [])"
    and k: "map fst (papers ScholarScraper) = first_occurrences (map fst (observed q []))"
    by (simp_all add: ScholarScraper_def first_occurrences_def observed_def)
  note r = run_agrees [OF p k, of ps]
  show "map fst (papers (run q ScholarScraper ps))
     = first_occurrences (map fst (observed q (events_of ps)))"
    using r by simp
  show "run_log q ScholarScraper ps = observed q (events_of ps)"
    using r by (simp add: observed_def)
qed

lemma map_of_first:
  "map_of xs u = (case filter (\<lambda>kv. fst kv = u) xs of [] \<Rightarrow> None | kv # rest \<Rightarrow> Some (snd kv))"
  by (induction xs) auto

lemma events_of_append: "events_of (ps @ ps') = events_of ps @ events_of ps'"
  by (simp add: events_of_def)

text \<open>
  C2 (as amended). After any sequence of messages the dictionary has one entry for each URL
  for which a text was observed, stored under that URL and holding it, and no other entry;
  the entries are in the order of the first observations. The description of an entry is
  the first text observed for its URL, whatever was observed for other URLs before or after;
  and messages processed later leave the description of every entry already there as it is.
  Here a text is observed for a URL when the latest alert link or end tag before it, in the
  events of all the messages taken in order, is an alert link with that URL.
\<close>

theorem dedup_first_description:
  "distinct (map fst (papers (run q ScholarScraper ps)))
   \<and> map (\<lambda>kp. url (snd kp)) (papers (run q ScholarScraper ps))
       = map fst (papers (run q ScholarScraper ps))
   \<and> map fst (papers (run q ScholarScraper ps))
       = first_occurrences (map fst (observed q (events_of ps)))
   \<and> map_option desc (map_of (papers (run q ScholarScraper ps)) u)
       = (case filter (\<lambda>od. fst od = u) (observed q (events_of ps)) of
            [] \<Rightarrow> None
          | od # rest \<Rightarrow> Some (snd od))
   \<and> map_option desc (map_of (papers (run q ScholarScraper (ps @ ps'))) u)
       = (case map_option desc (map_of (papers (run q ScholarScraper ps)) u) of
            Some d \<Rightarrow> Some d
          | None \<Rightarrow>
              (case filter (\<lambda>od. fst od = u) (observed q (events_of (ps @ ps'))) of
                 [] \<Rightarrow> None
               | od # rest \<Rightarrow> Some (snd od)))"
proof -
  have i: "inv_papers (papers (run q ScholarScraper ps))"
    using inv_init by (rule inv_run)
  have d: "desc_of (run q ScholarScraper xs) u = map_of (observed q (events_of xs)) u" for xs
    by (simp add: desc_of_run desc_of_init run_observed(2))
  have l: "desc_of (run q ScholarScraper (ps @ ps')) u
       = (case desc_of (run q ScholarScraper ps) u of
            Some d \<Rightarrow> Some d
          | None \<Rightarrow> map_of (observed q (events_of (ps @ ps'))) u)"
    unfolding d [of "ps @ ps'"] d [of ps] events_of_append
  proof (cases "map_of (observed q (events_of ps)) u")
    case None
    then show "map_of (observed q (events_of ps @ events_of ps')) u
        = (case map_of (observed q (events_of ps)) u of
             None \<Rightarrow> map_of (observed q (events_of ps @ events_of ps')) u
           | Some d \<Rightarrow> Some d)"
      by simp
  next
    case (Some x)
    have "observed q (events_of ps @ events_of ps')
        = observed q (events_of ps) @ run_log q (run q ScholarScraper ps) ps'"
    proof -
      have p: "pending_url ScholarScraper = last_link q (rev [])"
        and k: "map fst (papers ScholarScraper) = first_occurrences (map fst (observed q []))"
        by (simp_all add: ScholarScraper_def first_occurrences_def observed_def)
      note r = run_agrees [OF p k, of ps]
      have p': "pending_url (run q ScholarScraper ps) = last_link q (rev (events_of ps))"
        and k': "map fst (papers (run q ScholarScraper ps))
            = first_occurrences (map fst (observed q (events_of ps)))"
        using r by simp_all
      show ?thesis
        using run_agrees [OF p' k', of ps'] by simp
    qed
    then show "map_of (observed q (events_of ps @ events_of ps')) u
        = (case map_of (observed q (events_of ps)) u of
             None \<Rightarrow> map_of (observed q (events_of ps @ events_of ps')) u
           | Some d \<Rightarrow> Some d)"
      using Some by (simp add: map_of_append_first)
  qed
  have c1: "distinct (map fst (papers (run q ScholarScraper ps)))"
    and c2: "map (\<lambda>kp. url (snd kp)) (papers (run q ScholarScraper ps))
       = map fst (papers (run q ScholarScraper ps))"
    using i by (simp_all add: inv_papers_def)
  have c4: "map_option desc (map_of (papers (run q ScholarScraper ps)) u)
       = (case filter (\<lambda>od. fst od = u) (observed q (events_of ps)) of
            [] \<Rightarrow> None
          | od # rest \<Rightarrow> Some (snd od))"
    using d [of ps] unfolding desc_of_def map_of_first [of "observed q (events_of ps)"] .
  have c5: "map_option desc (map_of (papers (run q ScholarScraper (ps @ ps'))) u)
       = (case map_option desc (map_of (papers (run q ScholarScraper ps)) u) of
            Some d \<Rightarrow> Some d
          | None \<Rightarrow>
              (case filter (\<lambda>od. fst od = u) (observed q (events_of (ps @ ps'))) of
                 [] \<Rightarrow> None
               | od # rest \<Rightarrow> Some (snd od)))"
    using l unfolding desc_of_def map_of_first [of "observed q (events_of (ps @ ps'))"] .
  show ?thesis
    by (intro conjI c1 c2 run_observed(1) c4 c5)
qed

lemma observed_example:
  "observed plain_query (events_of
      [(''Ann - new articles'', triple_events ''?url=u1'' ''T one''),
       (''Bob - new citations'', triple_events ''?url=u2'' ''T two''),
       (''Cy - new citations'', triple_events ''?url=u1'' ''T three'')])
     = [(''u1'', ''T one''), (''u2'', ''T two''), (''u1'', ''T three'')]"
  by (simp add: observed_def events_of_def triple_events_def link_url_def attr_value_def
        plain_query_def)

theorem dedup_first_description_witness:
  "map fst (papers (run plain_query ScholarScraper
      [(''Ann - new articles'', triple_events ''?url=u1'' ''T one''),
       (''Bob - new citations'', triple_events ''?url=u2'' ''T two''),
       (''Cy - new citations'', triple_events ''?url=u1'' ''T three'')])) = [''u1'', ''u2'']
   \<and> map_option desc (map_of (papers (run plain_query ScholarScraper
      [(''Ann - new articles'', triple_events ''?url=u1'' ''T one''),
       (''Bob - new citations'', triple_events ''?url=u2'' ''T two''),
       (''Cy - new citations'', triple_events ''?url=u1'' ''T three'')])) ''u1'') = Some ''T one''
   \<and> map_option desc (map_of (papers (run plain_query ScholarScraper
      [(''Ann - new articles'', triple_events ''?url=u1'' ''T one''),
       (''Bob - new citations'', triple_events ''?url=u2'' ''T two''),
       (''Cy - new citations'', triple_events ''?url=u1'' ''T three'')])) ''u2'') = Some ''T two''"
proof -
  let ?ps = "[(''Ann - new articles'', triple_events ''?url=u1'' ''T one''),
       (''Bob - new citations'', triple_events ''?url=u2'' ''T two''),
       (''Cy - new citations'', triple_events ''?url=u1'' ''T three'')]"
  note t1 = dedup_first_description [of plain_query ?ps "''u1''" "[]"]
  note t2 = dedup_first_description [of plain_query ?ps "''u2''" "[]"]
  have k: "map fst (papers (run plain_query ScholarScraper ?ps)) = [''u1'', ''u2'']"
    using t1 by (simp add: observed_example first_occurrences_def)
  have d1: "map_option desc (map_of (papers (run plain_query ScholarScraper ?ps)) ''u1'')
      = Some ''T one''"
    using t1 [THEN conjunct2, THEN conjunct2, THEN conjunct2, THEN conjunct1]
    by (simp add: observed_example)
  have d2: "map_option desc (map_of (papers (run plain_query ScholarScraper ?ps)) ''u2'')
      = Some ''T two''"
    using t2 [THEN conjunct2, THEN conjunct2, THEN conjunct2, THEN conjunct1]
    by (simp add: observed_example)
  show ?thesis
    by (intro conjI k d1 d2)
qed

text \<open>
  C2 (as stated) fails in two ways. An alert link with no text before its end tag shows its
  URL in the input, and no record is made for it. And an alert link with no text and no end
  tag in its fragment takes the first text of a later message as its description: with two
  later messages that refer to no URL at all, the description depends on their order.
\<close>

theorem dedup_counterexample:
  "urls_seen plain_query (events_of
      [(''Ann - new articles'',
        [StartTag ''a'' [(''class'', Some ''gse_alrt_title''), (''href'', Some ''?url=u1'')],
         EndTag ''a''])]) = [''u1'']
   \<and> papers (run plain_query ScholarScraper
      [(''Ann - new articles'',
        [StartTag ''a'' [(''class'', Some ''gse_alrt_title''), (''href'', Some ''?url=u1'')],
         EndTag ''a''])]) = []
   \<and> urls_seen plain_query [Data ''x''] = []
   \<and> urls_seen plain_query [Data ''y''] = []
   \<and> map_option desc (map_of (papers (run plain_query ScholarScraper
      [(''Ann - new articles'',
        [StartTag ''a'' [(''class'', Some ''gse_alrt_title''), (''href'', Some ''?url=u1'')]]),
       (''Bob - new articles'', [Data ''x'']),
       (''Cy - new articles'', [Data ''y''])])) ''u1'') = Some ''x''
   \<and> map_option desc (map_of (papers (run plain_query ScholarScraper
      [(''Ann - new articles'',
        [StartTag ''a'' [(''class'', Some ''gse_alrt_title''), (''href'', Some ''?url=u1'')]]),
       (''Cy - new articles'', [Data ''y'']),
       (''Bob - new articles'', [Data ''x''])])) ''u1'') = Some ''y''"
  by (simp add: urls_seen_def events_of_def link_url_def attr_value_def plain_query_def
        ScholarScraper_def set_subject_def handle_starttag_def handle_endtag_def
        handle_data_def Let_def Paper_def note_subject_desc)

subsection \<open>The output\<close>

lemma dump_loop_explicit:
  "map (\<lambda>kp. url (snd kp)) ps = map fst ps \<Longrightarrow>
   dump_loop lower elems nf tb ps
     = concat (map (\<lambda>p. if excluded lower nf tb p then []
                         else [''---'', TAB # desc p, TAB # url p]
                              @ (if author p = {} then []
                                 else [TAB # ''author: '' @ join '', '' (elems (author p))])
                              @ (if citing p = {} then []
                                 else [TAB # ''citing: '' @ join '', '' (elems (citing p))])
                              @ (if related p = {} then []
                                 else [TAB # ''related: '' @ join '', '' (elems (related p))]))
               (map snd ps))"
  by (induction ps) (auto simp: excluded_def list_ex_iff Let_def paper_dump_def)

lemma dump_loop_separators:
  "map (\<lambda>kp. url (snd kp)) ps = map fst ps \<Longrightarrow>
   length (filter (\<lambda>l. l = ''---'') (dump_loop lower elems nf tb ps))
     = length (filter (\<lambda>p. \<not> excluded lower nf tb p) (map snd ps))"
  by (induction ps) (auto simp: excluded_def list_ex_iff Let_def paper_dump_def)

text \<open>
  C7. \<open>dump\<close> goes through the records in the order of the dictionary, which is the order in
  which their URLs were first observed. For a record that is excluded it prints nothing; for
  any other record it prints the separator line, the description, the URL and one line for
  each of the three sets of names that is not empty. So the output has one separator line for
  each record that is not excluded. A record is excluded exactly when a publisher entry is a
  substring of its URL or a topic entry is a substring of its description put in lower case
  (\<open>str.lower\<close>, applied to the description only).
\<close>

theorem dump_filters:
  "dump lower elems nf tb (run q ScholarScraper ps)
     = concat (map (\<lambda>p. if excluded lower nf tb p then []
                         else [''---'', TAB # desc p, TAB # url p]
                              @ (if author p = {} then []
                                 else [TAB # ''author: '' @ join '', '' (elems (author p))])
                              @ (if citing p = {} then []
                                 else [TAB # ''citing: '' @ join '', '' (elems (citing p))])
                              @ (if related p = {} then []
                                 else [TAB # ''related: '' @ join '', '' (elems (related p))]))
               (map snd (papers (run q ScholarScraper ps))))
   \<and> length (filter (\<lambda>l. l = ''---'') (dump lower elems nf tb (run q ScholarScraper ps)))
       = length (filter (\<lambda>p. \<not> excluded lower nf tb p)
           (map snd (papers (run q ScholarScraper ps))))
   \<and> map url (map snd (papers (run q ScholarScraper ps)))
       = first_occurrences (map fst (observed q (events_of ps)))"
proof -
  have "inv_papers (papers (run q ScholarScraper ps))"
    using inv_init by (rule inv_run)
  then have u: "map (\<lambda>kp. url (snd kp)) (papers (run q ScholarScraper ps))
      = map fst (papers (run q ScholarScraper ps))"
    by (simp add: inv_papers_def)
  have o: "map url (map snd (papers (run q ScholarScraper ps)))
      = first_occurrences (map fst (observed q (events_of ps)))"
    using u run_observed(1) [of q ps] by (simp add: comp_def)
  show ?thesis
    unfolding dump_def
    by (intro conjI dump_loop_explicit [OF u] dump_loop_separators [OF u] o)
qed

lemma run_example:
  "papers (run plain_query ScholarScraper
      [(''Ann - new articles'', triple_events ''?url=a.org/1'' ''Good''),
       (''Bob - new citations'', triple_events ''?url=springer/2'' ''Other''),
       (''Cy - new citations'', triple_events ''?url=b.org/3'' ''BlockChain'')])
   = [(''a.org/1'', \<lparr>url = ''a.org/1'', desc = ''Good'', author = {''Ann''}, citing = {},
         related = {}\<rparr>),
      (''springer/2'', \<lparr>url = ''springer/2'', desc = ''Other'', author = {},
         citing = {''Bob''}, related = {}\<rparr>),
      (''b.org/3'', \<lparr>url = ''b.org/3'', desc = ''BlockChain'', author = {},
         citing = {''Cy''}, related = {}\<rparr>)]"
  by (simp add: triple_events_def plain_query_def ScholarScraper_def set_subject_def
        handle_starttag_def handle_endtag_def handle_data_def Let_def Paper_def
        note_subject_def rx_match_def author_sfx_def citing_sfx_def related_sfx_def)

theorem dump_filters_witness:
  "dump (map ascii_lower) (\<lambda>S. if S = {''Ann''} then [''Ann''] else [])
      [''springer''] [''blockchain'']
      (run plain_query ScholarScraper
        [(''Ann - new articles'', triple_events ''?url=a.org/1'' ''Good''),
         (''Bob - new citations'', triple_events ''?url=springer/2'' ''Other''),
         (''Cy - new citations'', triple_events ''?url=b.org/3'' ''BlockChain'')])
   = [''---'', TAB # ''Good'', TAB # ''a.org/1'', TAB # ''author: Ann'']"
  using dump_filters [of "map ascii_lower" "\<lambda>S. if S = {''Ann''} then [''Ann''] else []"
      "[''springer'']" "[''blockchain'']" plain_query
      "[(''Ann - new articles'', triple_events ''?url=a.org/1'' ''Good''),
        (''Bob - new citations'', triple_events ''?url=springer/2'' ''Other''),
        (''Cy - new citations'', triple_events ''?url=b.org/3'' ''BlockChain'')]",
      THEN conjunct1]
  unfolding dump_def run_example
  by (simp add: excluded_def ascii_lower_def sublist_Cons_right)

subsection \<open>Order of the messages\<close>

lemma names_of_note_subject: "names_of (note_subject p s) = join3 (names_of p) (contrib s)"
  by (auto simp: names_of_def note_subject_def contrib_def join3_def Let_def split: option.splits)

lemma names_of_Paper: "names_of (Paper u d) = ({}, {}, {})"
  by (simp add: names_of_def Paper_def)

lemma step_pending: "pending_url s = None \<Longrightarrow> pending_url (step q s t) = None"
  by (auto simp: step_def triple_events_def set_subject_def handle_starttag_def
        handle_endtag_def handle_data_def Let_def split: option.splits)

lemma step_names:
  assumes "pending_url s = None"
  shows "names_at (step q s t) u
     = (if q (Some (fst (snd t))) = Some u
        then Some (join3 (case names_at s u of None \<Rightarrow> ({}, {}, {}) | Some n \<Rightarrow> n)
                         (contrib (fst t)))
        else names_at s u)"
  using assms
  by (auto simp: step_def triple_events_def set_subject_def handle_starttag_def
        handle_endtag_def handle_data_def Let_def names_at_def map_of_update map_add_def
        names_of_note_subject names_of_Paper
      split: option.splits)

lemma run_triples_Cons: "run_triples q s (t # ts) = run_triples q (step q s t) ts"
  by (cases t) (simp add: run_triples_def step_def)

lemma run_triples_Nil: "run_triples q s [] = s"
  by (simp add: run_triples_def)

lemma join3_assoc: "join3 (join3 x y) z = join3 x (join3 y z)"
  by (auto simp: join3_def)

lemma join3_empty: "join3 ({}, {}, {}) x = x" "join3 x ({}, {}, {}) = x"
  by (simp_all add: join3_def)

lemma gathered_Cons:
  "gathered q (t # ts) u
     = (if q (Some (fst (snd t))) = Some u then join3 (contrib (fst t)) (gathered q ts u)
        else gathered q ts u)"
  by (auto simp: gathered_def join3_def)

lemma gathered_Nil: "gathered q [] u = ({}, {}, {})"
  by (simp add: gathered_def)

lemma touched_Cons:
  "touched q (t # ts) u \<longleftrightarrow> q (Some (fst (snd t))) = Some u \<or> touched q ts u"
  by (simp add: touched_def)

lemma gathered_untouched: "\<not> touched q ts u \<Longrightarrow> gathered q ts u = ({}, {}, {})"
  by (auto simp: gathered_def touched_def)

lemma run_triples_names:
  "pending_url s = None \<Longrightarrow>
   names_at (run_triples q s ts) u
     = (if touched q ts u
        then Some (join3 (case names_at s u of None \<Rightarrow> ({}, {}, {}) | Some n \<Rightarrow> n)
                         (gathered q ts u))
        else names_at s u)"
proof (induction ts arbitrary: s)
  case Nil
  show ?case by (simp add: run_triples_Nil touched_def)
next
  case (Cons t ts)
  have p: "pending_url (step q s t) = None"
    using Cons.prems by (rule step_pending)
  show ?case
    unfolding run_triples_Cons Cons.IH [OF p] step_names [OF Cons.prems]
    by (auto simp: touched_Cons gathered_Cons gathered_untouched join3_assoc join3_empty
          split: option.splits)
qed

lemma names_at_init: "names_at ScholarScraper u = None"
  by (simp add: names_at_def ScholarScraper_def)

lemma pending_init: "pending_url ScholarScraper = None"
  by (simp add: ScholarScraper_def)

lemma run_triples_names_init:
  "names_at (run_triples q ScholarScraper ts) u
     = (if touched q ts u then Some (gathered q ts u) else None)"
  by (simp add: run_triples_names [OF pending_init] names_at_init join3_empty)

lemma step_log:
  "pending_url s = None \<Longrightarrow>
   feed_log q (set_subject s subj) (triple_events h d)
     = (case q (Some h) of None \<Rightarrow> [] | Some u \<Rightarrow> [(u, d)])"
  by (auto simp: triple_events_def set_subject_def handle_starttag_def Let_def
      split: option.splits)

lemma run_triples_log:
  "pending_url s = None \<Longrightarrow>
   run_log q s (map (\<lambda>(subject, href, d). (subject, triple_events href d)) ts)
     = triple_log q ts"
proof (induction ts arbitrary: s)
  case Nil
  show ?case by (simp add: triple_log_def)
next
  case (Cons t ts)
  obtain subj h d where t: "t = (subj, h, d)" by (cases t)
  have p: "pending_url (feed q (set_subject s subj) (triple_events h d)) = None"
    using step_pending [OF Cons.prems, of q t] by (simp add: step_def t)
  show ?case
    using Cons.IH [OF p] step_log [OF Cons.prems, of q subj h d]
    by (simp add: t triple_log_def)
qed

text \<open>
  C8. Two lists of triples with the same multiset give every URL the same three sets of
  names, and the same set of URLs; the description of a URL is the description of the first
  triple for that URL in the list that was processed.
\<close>

theorem triples_order_independent:
  assumes "mset ts = mset ts'"
  shows "map_option names_of (map_of (papers (run_triples q ScholarScraper ts)) u)
      = map_option names_of (map_of (papers (run_triples q ScholarScraper ts')) u)
    \<and> map_option desc (map_of (papers (run_triples q ScholarScraper ts)) u)
      = map_of (triple_log q ts) u
    \<and> map_option desc (map_of (papers (run_triples q ScholarScraper ts')) u)
      = map_of (triple_log q ts') u"
proof -
  have s: "set ts = set ts'"
    using assms by (rule mset_eq_setD)
  then have "touched q ts u = touched q ts' u" and "gathered q ts u = gathered q ts' u"
    by (simp_all add: touched_def gathered_def)
  then have n: "names_at (run_triples q ScholarScraper ts) u
      = names_at (run_triples q ScholarScraper ts') u"
    by (simp add: run_triples_names_init)
  have d: "desc_of (run_triples q ScholarScraper xs) u = map_of (triple_log q xs) u" for xs
    unfolding run_triples_def
    by (simp add: desc_of_run desc_of_init run_triples_log [OF pending_init])
  show ?thesis
    using n d [of ts] d [of ts'] by (simp add: names_at_def desc_of_def)
qed

lemma names_example:
  "gathered plain_query
     [(''Ann - new articles'', ''?url=u1'', ''T one''),
      (''Bob - new citations'', ''?url=u1'', ''T two'')] ''u1''
   = ({''Ann''}, {''Bob''}, {})"
  by (auto simp: gathered_def contrib_def plain_query_def rx_match_def author_sfx_def
        citing_sfx_def related_sfx_def)

theorem triples_order_independent_witness:
  "map_option names_of (map_of (papers (run_triples plain_query ScholarScraper
       [(''Ann - new articles'', ''?url=u1'', ''T one''),
        (''Bob - new citations'', ''?url=u1'', ''T two'')])) ''u1'')
     = map_option names_of (map_of (papers (run_triples plain_query ScholarScraper
       [(''Bob - new citations'', ''?url=u1'', ''T two''),
        (''Ann - new articles'', ''?url=u1'', ''T one'')])) ''u1'')
   \<and> map_option desc (map_of (papers (run_triples plain_query ScholarScraper
       [(''Ann - new articles'', ''?url=u1'', ''T one''),
        (''Bob - new citations'', ''?url=u1'', ''T two'')])) ''u1'') = Some ''T one''
   \<and> map_option desc (map_of (papers (run_triples plain_query ScholarScraper
       [(''Bob - new citations'', ''?url=u1'', ''T two''),
        (''Ann - new articles'', ''?url=u1'', ''T one'')])) ''u1'') = Some ''T two''"
proof -
  have m: "mset [(''Ann - new articles'', ''?url=u1'', ''T one''),
                 (''Bob - new citations'', ''?url=u1'', ''T two'')]
         = mset [(''Bob - new citations'', ''?url=u1'', ''T two''),
                 (''Ann - new articles'', ''?url=u1'', ''T one'')]"
    by (simp add: add_mset_commute)
  show ?thesis
    using triples_order_independent [OF m, of plain_query "''u1''"]
    by (simp add: triple_log_def plain_query_def)
qed

end
